theory Spec2Isabelle
  imports Main "HOL-Library.Char_ord" "HOL-Library.List_Lexorder" "HOL-Library.Sublist"
begin

section \<open>Strings and regular expressions of the source language\<close>

abbreviation sq :: char where "sq \<equiv> CHR 0x27"
abbreviation dq :: char where "dq \<equiv> CHR 0x22"

fun startsWith :: "string \<Rightarrow> string \<Rightarrow> bool" where
  "startsWith s [] = True"
| "startsWith [] (p # ps) = False"
| "startsWith (x # xs) (p # ps) = (x = p \<and> startsWith xs ps)"

definition endsWith :: "string \<Rightarrow> string \<Rightarrow> bool" where
  "endsWith s p = startsWith (rev s) (rev p)"

fun includesStr :: "string \<Rightarrow> string \<Rightarrow> bool" where
  "includesStr [] sub = (sub = [])"
| "includesStr (x # xs) sub = (startsWith (x # xs) sub \<or> includesStr xs sub)"

definition isSpace :: "char \<Rightarrow> bool" where
  "isSpace c = (c \<in> set [CHR 0x09, CHR 0x0A, CHR 0x0B, CHR 0x0C, CHR 0x0D, CHR 0x20, CHR 0xA0])"

definition isDigit :: "char \<Rightarrow> bool" where
  "isDigit c = (CHR ''0'' \<le> c \<and> c \<le> CHR ''9'')"

definition isLineTerminator :: "char \<Rightarrow> bool" where
  "isLineTerminator c = (c = CHR 0x0A \<or> c = CHR 0x0D)"

definition trim :: "string \<Rightarrow> string" where
  "trim s = rev (dropWhile isSpace (rev (dropWhile isSpace s)))"

datatype citem = C char | Rng char char | Digit | Space

fun inItem :: "char \<Rightarrow> citem \<Rightarrow> bool" where
  "inItem c (C d) = (c = d)"
| "inItem c (Rng lo hi) = (lo \<le> c \<and> c \<le> hi)"
| "inItem c Digit = isDigit c"
| "inItem c Space = isSpace c"

datatype rx =
    Chr char
  | In "citem list"
  | NotIn "citem list"
  | Dot
  | Bol
  | Eol
  | Seq rx rx
  | Star rx
  | Plus rx
  | Opt rx
  | Grp nat rx

type_synonym caps = "nat \<Rightarrow> string option"

fun starM :: "(string \<Rightarrow> caps \<Rightarrow> (string \<Rightarrow> caps \<Rightarrow> 'a option) \<Rightarrow> 'a option)
    \<Rightarrow> nat \<Rightarrow> string \<Rightarrow> caps \<Rightarrow> (string \<Rightarrow> caps \<Rightarrow> 'a option) \<Rightarrow> 'a option" where
  "starM step 0 s c k = k s c"
| "starM step (Suc n) s c k =
     (case step s c (\<lambda>s' c'. if length s' < length s then starM step n s' c' k else None) of
        Some r \<Rightarrow> Some r
      | None \<Rightarrow> k s c)"

text \<open>A pattern that takes one character satisfying \<open>P\<close>.\<close>

definition charStep :: "(char \<Rightarrow> bool) \<Rightarrow> string \<Rightarrow> caps \<Rightarrow> (string \<Rightarrow> caps \<Rightarrow> 'a option) \<Rightarrow> 'a option" where
  "charStep P s c k = (case s of [] \<Rightarrow> None | x # xs \<Rightarrow> if P x then k xs c else None)"

definition inCls :: "citem list \<Rightarrow> char \<Rightarrow> bool" where
  "inCls cls x = list_ex (inItem x) cls"

text \<open>
  The backtracking matcher, in continuation-passing style as in the language definition:
  \<open>rxm n r s c k\<close> matches \<open>r\<close> at the front of \<open>s\<close> (a suffix of the input, whose length is
  \<open>n\<close>) with the captures \<open>c\<close> so far and hands what is left to the continuation \<open>k\<close>;
  the first success in priority order is the result.  Repetition is greedy.
\<close>

primrec rxm :: "nat \<Rightarrow> rx \<Rightarrow> string \<Rightarrow> caps \<Rightarrow> (string \<Rightarrow> caps \<Rightarrow> 'a option) \<Rightarrow> 'a option" where
  "rxm n (Chr a) = charStep (\<lambda>x. x = a)"
| "rxm n (In cls) = charStep (inCls cls)"
| "rxm n (NotIn cls) = charStep (\<lambda>x. \<not> inCls cls x)"
| "rxm n Dot = charStep (\<lambda>x. \<not> isLineTerminator x)"
| "rxm n Bol = (\<lambda>s c k. if length s = n then k s c else None)"
| "rxm n Eol = (\<lambda>s c k. if s = [] then k s c else None)"
| "rxm n (Seq a b) = (\<lambda>s c k. rxm n a s c (\<lambda>s' c'. rxm n b s' c' k))"
| "rxm n (Star a) = (\<lambda>s c k. starM (rxm n a) (length s) s c k)"
| "rxm n (Plus a) = (\<lambda>s c k. rxm n a s c (\<lambda>s' c'. starM (rxm n a) (length s') s' c' k))"
| "rxm n (Opt a) = (\<lambda>s c k. case rxm n a s c k of Some r \<Rightarrow> Some r | None \<Rightarrow> k s c)"
| "rxm n (Grp i a) = (\<lambda>s c k. rxm n a s c (\<lambda>s' c'. k s' (c'(i \<mapsto> take (length s - length s') s))))"

lemma charStep_simps [simp]:
  "charStep P [] c k = None"
  "charStep P (x # xs) c k = (if P x then k xs c else None)"
  by (simp_all add: charStep_def)

fun seqs :: "rx list \<Rightarrow> rx" where
  "seqs [r] = r"
| "seqs (r # rs) = Seq r (seqs rs)"
| "seqs [] = Opt Eol"

definition lit :: "string \<Rightarrow> rx" where
  "lit s = seqs (map Chr s)"

definition matchAt :: "rx \<Rightarrow> nat \<Rightarrow> string \<Rightarrow> (caps \<times> string) option" where
  "matchAt r n s = rxm n r s (\<lambda>_. None) (\<lambda>s' c. Some (c, s'))"

fun searchFrom :: "rx \<Rightarrow> nat \<Rightarrow> string \<Rightarrow> (string \<times> caps \<times> string) option" where
  "searchFrom r n [] = (case matchAt r n [] of None \<Rightarrow> None | Some (c, rest) \<Rightarrow> Some ([], c, rest))"
| "searchFrom r n (x # xs) =
     (case matchAt r n (x # xs) of
        None \<Rightarrow> searchFrom r n xs
      | Some (c, rest) \<Rightarrow> Some (x # xs, c, rest))"

definition rxMatch :: "rx \<Rightarrow> string \<Rightarrow> caps option" where
  "rxMatch r s = map_option (\<lambda>(st, c, rest). c) (searchFrom r (length s) s)"

definition rxReplace :: "rx \<Rightarrow> string \<Rightarrow> string \<Rightarrow> string" where
  "rxReplace r repl s =
     (case searchFrom r (length s) s of
        None \<Rightarrow> s
      | Some (st, c, rest) \<Rightarrow> take (length s - length st) s @ repl @ rest)"

subsection \<open>Matches never grow the input\<close>

lemma starM_suffix:
  assumes step: "\<And>s c k v. step s c k = Some v \<Longrightarrow> \<exists>s' c'. length s' \<le> length s \<and> k s' c' = Some v"
  shows "starM step fuel s c k = Some v \<Longrightarrow> \<exists>s' c'. length s' \<le> length s \<and> k s' c' = Some v"
proof (induction fuel arbitrary: s c v)
  case 0
  then show ?case by auto
next
  case (Suc fuel)
  let ?k' = "\<lambda>s' c'. if length s' < length s then starM step fuel s' c' k else None"
  show ?case
  proof (cases "step s c ?k'")
    case None
    with Suc.prems show ?thesis by auto
  next
    case (Some r)
    with Suc.prems have r: "r = v" by simp
    from step [OF Some] obtain s' c' where le: "length s' \<le> length s" and k': "?k' s' c' = Some r"
      by blast
    from k' have lt: "length s' < length s" and st: "starM step fuel s' c' k = Some r"
      by (auto split: if_splits)
    from Suc.IH [OF st] obtain s'' c'' where "length s'' \<le> length s'" "k s'' c'' = Some r"
      by blast
    with lt r show ?thesis by (intro exI [of _ s''] exI [of _ c'']) simp
  qed
qed

lemma rxm_suffix:
  "rxm n r s c k = Some v \<Longrightarrow> \<exists>s' c'. length s' \<le> length s \<and> k s' c' = Some v"
proof (induction r arbitrary: s c k v)
  case (Chr a)
  then show ?case by (cases s) (auto split: if_splits intro: le_SucI)
next
  case (In cls)
  then show ?case by (cases s) (auto split: if_splits intro: le_SucI)
next
  case (NotIn cls)
  then show ?case by (cases s) (auto split: if_splits intro: le_SucI)
next
  case Dot
  then show ?case by (cases s) (auto split: if_splits intro: le_SucI)
next
  case Bol
  then show ?case by (auto split: if_splits)
next
  case Eol
  then show ?case by (auto split: if_splits)
next
  case (Seq a b)
  from Seq.prems have "rxm n a s c (\<lambda>s' c'. rxm n b s' c' k) = Some v" by simp
  from Seq.IH(1) [OF this] obtain s1 c1 where 1: "length s1 \<le> length s" "rxm n b s1 c1 k = Some v"
    by blast
  from Seq.IH(2) [OF 1(2)] obtain s2 c2 where "length s2 \<le> length s1" "k s2 c2 = Some v"
    by blast
  with 1(1) show ?case by (intro exI [of _ s2] exI [of _ c2]) simp
next
  case (Star a)
  from Star.prems have "starM (rxm n a) (length s) s c k = Some v" by simp
  then show ?case by (rule starM_suffix [rotated]) (rule Star.IH)
next
  case (Plus a)
  from Plus.prems have "rxm n a s c (\<lambda>s' c'. starM (rxm n a) (length s') s' c' k) = Some v" by simp
  from Plus.IH [OF this] obtain s1 c1
    where 1: "length s1 \<le> length s" "starM (rxm n a) (length s1) s1 c1 k = Some v"
    by blast
  have "\<exists>s' c'. length s' \<le> length s1 \<and> k s' c' = Some v"
    using 1(2) by (rule starM_suffix [rotated]) (rule Plus.IH)
  then obtain s2 c2 where "length s2 \<le> length s1" "k s2 c2 = Some v" by blast
  with 1(1) show ?case by (intro exI [of _ s2] exI [of _ c2]) simp
next
  case (Opt a)
  show ?case
  proof (cases "rxm n a s c k")
    case None
    with Opt.prems show ?thesis by auto
  next
    case (Some r)
    with Opt.prems have "rxm n a s c k = Some v" by simp
    from Opt.IH [OF this] show ?thesis .
  qed
next
  case (Grp i a)
  from Grp.prems
  have "rxm n a s c (\<lambda>s' c'. k s' (c'(i \<mapsto> take (length s - length s') s))) = Some v" by simp
  from Grp.IH [OF this] show ?case by blast
qed

lemma matchAt_length: "matchAt r n s = Some (c, rest) \<Longrightarrow> length rest \<le> length s"
  unfolding matchAt_def by (drule rxm_suffix) auto

lemma searchFrom_length:
  "searchFrom r n s = Some (st, c, rest) \<Longrightarrow> length st \<le> length s \<and> length rest \<le> length st"
proof (induction s)
  case Nil
  then show ?case by (auto split: option.splits dest: matchAt_length)
next
  case (Cons x xs)
  then show ?case by (auto split: option.splits dest: matchAt_length)
qed

text \<open>
  The loop \<open>while ((match = re.exec(source)) !== null) body\<close> of a global regular
  expression: each round searches from the end of the last match.  A round that matches
  the empty string leaves \<open>lastIndex\<close> where it is, and the loop never ends; that is the
  result \<open>None\<close>.
\<close>

function execAll :: "rx \<Rightarrow> nat \<Rightarrow> string \<Rightarrow> caps list option" where
  "execAll r n s =
     (case searchFrom r n s of
        None \<Rightarrow> Some []
      | Some (st, c, rest) \<Rightarrow>
          if length rest < length st then map_option ((#) c) (execAll r n rest) else None)"
  by pat_completeness auto
termination
proof (relation "measure (\<lambda>(r, n, s). length s)")
  show "wf (measure (\<lambda>(r, n, s). length s))" by simp
next
  fix r n s x2 st y c rest
  assume "searchFrom r n s = Some x2" "(st, y) = x2" "(c, rest) = y" "length rest < length st"
  then have "searchFrom r n s = Some (st, c, rest)" by simp
  from searchFrom_length [OF this] \<open>length rest < length st\<close>
  show "((r, n, rest), (r, n, s)) \<in> measure (\<lambda>(r, n, s). length s)" by simp
qed

declare execAll.simps [simp del]

definition capture :: "caps \<Rightarrow> nat \<Rightarrow> string" where
  "capture c i = (case c i of None \<Rightarrow> '''' | Some t \<Rightarrow> t)"

definition setAdd :: "'a \<Rightarrow> 'a list \<Rightarrow> 'a list" where
  "setAdd x xs = (if x \<in> set xs then xs else xs @ [x])"


subsection \<open>Greedy repetition of a one-character pattern\<close>

lemma starM_charStep_det:
  assumes "\<And>x xs. P x \<Longrightarrow> k (x # xs) c = None"
  shows "length s \<le> fuel \<Longrightarrow> starM (charStep P) fuel s c k = k (dropWhile P s) c"
proof (induction s arbitrary: fuel)
  case Nil
  then show ?case by (cases fuel) simp_all
next
  case (Cons x xs)
  then obtain f where f: "fuel = Suc f" "length xs \<le> f" by (cases fuel) auto
  show ?case
  proof (cases "P x")
    case True
    with Cons.IH [OF f(2)] assms [OF True, of xs] show ?thesis
      by (simp add: f(1) split: option.splits)
  next
    case False
    then show ?thesis by (simp add: f(1))
  qed
qed

lemma starM_charStep_max:
  assumes "\<forall>x \<in> set xs. P x" and "rest = [] \<or> \<not> P (hd rest)" and "k rest c = Some v"
  shows "length (xs @ rest) \<le> fuel \<Longrightarrow> starM (charStep P) fuel (xs @ rest) c k = Some v"
  using assms(1)
proof (induction xs arbitrary: fuel)
  case Nil
  show ?case
  proof (cases fuel)
    case 0
    with assms(3) show ?thesis by simp
  next
    case (Suc f)
    with assms(2,3) show ?thesis by (cases rest) auto
  qed
next
  case (Cons x xs)
  then obtain f where f: "fuel = Suc f" "length (xs @ rest) \<le> f" by (cases fuel) auto
  from Cons.prems have "P x" "\<forall>x \<in> set xs. P x" by auto
  with Cons.IH [OF f(2)] show ?case by (simp add: f(1))
qed

lemma plus_charStep_max:
  assumes "xs \<noteq> []" "\<forall>x \<in> set xs. P x" "rest = [] \<or> \<not> P (hd rest)" "k rest c = Some v"
  shows "charStep P (xs @ rest) c (\<lambda>s' c'. starM (charStep P) (length s') s' c' k) = Some v"
proof -
  from assms(1) obtain y ys where xs: "xs = y # ys" by (cases xs) auto
  with assms(2) have "P y" "\<forall>x \<in> set ys. P x" by auto
  with starM_charStep_max [of ys P rest k c v "length (ys @ rest)"] assms(3,4)
  show ?thesis by (simp add: xs)
qed

lemma rxm_SeqI: "rxm n a s c (\<lambda>s' c'. rxm n b s' c' k) = Some v \<Longrightarrow> rxm n (Seq a b) s c k = Some v"
  by simp

lemma rxm_ChrI: "k xs c = Some v \<Longrightarrow> rxm n (Chr a) (a # xs) c k = Some v"
  by simp


lemma rxm_BolI: "length s = n \<Longrightarrow> k s c = Some v \<Longrightarrow> rxm n Bol s c k = Some v"
  by simp

lemma rxm_EolI: "k [] c = Some v \<Longrightarrow> rxm n Eol [] c k = Some v"
  by simp

lemma rxm_OptI: "rxm n a s c k = Some v \<Longrightarrow> rxm n (Opt a) s c k = Some v"
  by simp

lemma rxm_GrpI:
  "rxm n a s c (\<lambda>s' c'. k s' (c'(i \<mapsto> take (length s - length s') s))) = Some v
   \<Longrightarrow> rxm n (Grp i a) s c k = Some v"
  by simp

lemma rxm_PlusNotInI:
  assumes "xs \<noteq> []" "\<forall>x \<in> set xs. \<not> inCls cls x" "rest = [] \<or> inCls cls (hd rest)"
    "k rest c = Some v"
  shows "rxm n (Plus (NotIn cls)) (xs @ rest) c k = Some v"
  using plus_charStep_max [of xs "\<lambda>x. \<not> inCls cls x" rest k c v] assms by simp

lemma rxm_StarDotI:
  assumes "\<forall>x \<in> set xs. \<not> isLineTerminator x" "k [] c = Some v"
  shows "rxm n (Star Dot) xs c k = Some v"
  using starM_charStep_max [of xs "\<lambda>x. \<not> isLineTerminator x" "[]" k c v "length xs"] assms by simp

lemma searchFrom_skip:
  assumes "\<forall>x \<in> set pre. x \<noteq> a"
  shows "searchFrom (Seq (Chr a) r) n (pre @ s) =
         (case searchFrom (Seq (Chr a) r) n s of None \<Rightarrow> None | Some (st, c, rest) \<Rightarrow> Some (st, c, rest))"
  using assms
proof (induction pre)
  case Nil
  show ?case by (simp split: option.splits)
next
  case (Cons x pre)
  then have "matchAt (Seq (Chr a) r) n (x # pre @ s) = None"
    by (simp add: matchAt_def)
  with Cons show ?case by simp
qed

lemma searchFrom_hit:
  "matchAt r n (x # xs) = Some (c, rest) \<Longrightarrow> searchFrom r n (x # xs) = Some (x # xs, c, rest)"
  by simp

subsection \<open>Patterns that always take a character\<close>








subsection \<open>What a match of a one-character repetition looks like\<close>







lemma rxm_lit: "s \<noteq> [] \<Longrightarrow> rxm n (lit s) (s @ t) c k = k t c"
proof (induction s)
  case Nil
  then show ?case by simp
next
  case (Cons a s)
  show ?case
  proof (cases s)
    case Nil
    then show ?thesis by (simp add: lit_def)
  next
    case (Cons b bs)
    with Cons.IH show ?thesis by (simp add: lit_def)
  qed
qed

lemma rxm_litI: "s \<noteq> [] \<Longrightarrow> k t c = Some v \<Longrightarrow> rxm n (lit s) (s @ t) c k = Some v"
  by (simp add: rxm_lit)


section \<open>Dependency extraction (utils/dependencies.ts)\<close>

definition packageMappings :: "(string \<times> string) list" where
  "packageMappings = [
     (''@supabase/supabase-js'', ''@supabase/supabase-js''),
     (''oak'', ''koa''), (''hono'', ''hono''),
     (''lodash'', ''lodash''), (''date-fns'', ''date-fns''), (''uuid'', ''uuid''), (''nanoid'', ''nanoid''),
     (''zod'', ''zod''), (''yup'', ''yup''), (''joi'', ''joi''),
     (''axios'', ''axios''), (''node-fetch'', ''node-fetch''),
     (''postgres'', ''pg''), (''mysql'', ''mysql2''), (''redis'', ''redis''), (''mongodb'', ''mongodb''),
     (''openai'', ''openai''), (''@anthropic-ai/sdk'', ''@anthropic-ai/sdk''), (''langchain'', ''langchain''),
     (''nodemailer'', ''nodemailer''), (''resend'', ''resend''), (''@sendgrid/mail'', ''@sendgrid/mail''),
     (''stripe'', ''stripe''),
     (''jsonwebtoken'', ''jsonwebtoken''), (''jose'', ''jose''), (''bcrypt'', ''bcrypt''),
     (''crypto-js'', ''crypto-js''),
     (''pdfkit'', ''pdfkit''), (''pdf-lib'', ''pdf-lib''),
     (''sharp'', ''sharp''), (''jimp'', ''jimp''),
     (''@aws-sdk/client-s3'', ''@aws-sdk/client-s3''), (''@aws-sdk/client-ses'', ''@aws-sdk/client-ses''),
     (''googleapis'', ''googleapis''), (''@google-cloud/storage'', ''@google-cloud/storage'')]"

text \<open>
  A lookup \<open>object[name]\<close> on an object literal finds the properties written in the
  literal and, under any other name, what every object inherits from
  \<open>Object.prototype\<close>: eleven functions and, under \<open>__proto__\<close>, the prototype object
  itself.  All twelve are truthy and none is \<open>undefined\<close>.
\<close>

definition objectPrototypeMembers :: "string list" where
  "objectPrototypeMembers = [''constructor'', ''__defineGetter__'', ''__defineSetter__'',
     ''hasOwnProperty'', ''__lookupGetter__'', ''__lookupSetter__'', ''isPrototypeOf'',
     ''propertyIsEnumerable'', ''toString'', ''valueOf'', ''__proto__'', ''toLocaleString'']"

text \<open>
  The string that such a member becomes when a string is appended to it with \<open>+\<close>, as
  Node.js prints it.
\<close>

definition memberText :: "string \<Rightarrow> string" where
  "memberText name =
     (if name = ''__proto__'' then ''[object Object]''
      else ''function '' @ (if name = ''constructor'' then ''Object'' else name) @ ''() { [native code] }'')"

text \<open>
  What mapPackage returns and the set of dependencies holds: a string or, for a name
  that \<open>packageMappings[pkg]\<close> finds on the prototype, the inherited member.
\<close>

datatype entry = Str string | Member string

fun truthy :: "entry \<Rightarrow> bool" where
  "truthy (Str s) = (s \<noteq> '''')"
| "truthy (Member name) = True"

definition mapPackage :: "string \<Rightarrow> entry" where
  "mapPackage pkg =
     (case map_of packageMappings pkg of
        Some t \<Rightarrow> Str t
      | None \<Rightarrow>
          if pkg \<in> set objectPrototypeMembers then Member pkg
          else if startsWith pkg ''@'' then Str pkg
          else if includesStr pkg ''std/'' then Str ''''
          else Str pkg)"

definition quote :: rx where
  "quote = In [C sq, C dq]"

definition npmPattern :: rx where
  "npmPattern = seqs [lit ''from'', Plus (In [Space]), quote, lit ''npm:'',
     Grp 1 (Plus (NotIn [C sq, C dq, C CHR ''@''])),
     Opt (Seq (Chr CHR ''@'') (Plus (NotIn [C sq, C dq]))), quote]"

definition npmScopedPattern :: rx where
  "npmScopedPattern = seqs [lit ''from'', Plus (In [Space]), quote, lit ''npm:'',
     Grp 1 (seqs [Chr CHR ''@'', Plus (NotIn [C CHR ''/'']), Chr CHR ''/'',
                  Plus (NotIn [C sq, C dq, C CHR ''@''])]),
     Opt (Seq (Chr CHR ''@'') (Plus (NotIn [C sq, C dq]))), quote]"

definition jsrPattern :: rx where
  "jsrPattern = seqs [lit ''from'', Plus (In [Space]), quote, lit ''jsr:'',
     Grp 1 (Plus (NotIn [C sq, C dq, C CHR ''@''])),
     Opt (Seq (Chr CHR ''@'') (Plus (NotIn [C sq, C dq]))), quote]"

definition esmPattern :: rx where
  "esmPattern = seqs [lit ''from'', Plus (In [Space]), quote, lit ''https://esm.sh/'',
     Grp 1 (Plus (NotIn [C CHR ''@'', C sq, C dq, C CHR ''?''])),
     Opt (Seq (Chr CHR ''@'') (Plus (NotIn [C sq, C dq, C CHR ''?'']))),
     Star (NotIn [C sq, C dq]), quote]"

definition denoPattern :: rx where
  "denoPattern = seqs [lit ''from'', Plus (In [Space]), quote, Opt (lit ''https://''),
     lit ''deno.land/x/'',
     Grp 1 (Plus (NotIn [C CHR ''@'', C CHR ''/'', C sq, C dq]))]"

text \<open>The body of the first four loops: \<open>dependencies.add(mapPackage(match[1].trim()))\<close>.\<close>

definition addMapped :: "caps \<Rightarrow> entry list \<Rightarrow> entry list" where
  "addMapped c deps = setAdd (mapPackage (trim (capture c 1))) deps"

text \<open>The body of the deno.land loop, which adds the mapped name only when it is truthy.\<close>

definition addMappedNonEmpty :: "caps \<Rightarrow> entry list \<Rightarrow> entry list" where
  "addMappedNonEmpty c deps =
     (let mapped = mapPackage (trim (capture c 1)) in if truthy mapped then setAdd mapped deps else deps)"

definition usageSignatures :: "string \<Rightarrow> entry list \<Rightarrow> entry list" where
  "usageSignatures source deps =
     (let d1 = (if includesStr source ''createClient'' \<and> includesStr source ''supabase''
                then setAdd (Str ''@supabase/supabase-js'') deps else deps);
          d2 = (if includesStr source ''OpenAI'' \<or> includesStr source ''openai''
                then setAdd (Str ''openai'') d1 else d1);
          d3 = (if includesStr source ''Stripe'' \<or> includesStr source ''stripe''
                then setAdd (Str ''stripe'') d2 else d2);
          d4 = (if includesStr source ''Resend'' \<or> includesStr source ''resend''
                then setAdd (Str ''resend'') d3 else d3);
          d5 = (if includesStr source ''bcrypt'' \<or> includesStr source ''hash(''
                   \<or> includesStr source ''compare(''
                then setAdd (Str ''bcrypt'') d4 else d4)
      in d5)"

definition scan :: "rx \<Rightarrow> string \<Rightarrow> (caps \<Rightarrow> 'a \<Rightarrow> 'a) \<Rightarrow> 'a \<Rightarrow> 'a option" where
  "scan r source body acc = map_option (\<lambda>ms. fold body ms acc) (execAll r (length source) source)"

definition extractDependencies :: "string \<Rightarrow> entry list option" where
  "extractDependencies source =
     Option.bind (scan npmPattern source addMapped []) (\<lambda>d1.
     Option.bind (scan npmScopedPattern source addMapped d1) (\<lambda>d2.
     Option.bind (scan jsrPattern source addMapped d2) (\<lambda>d3.
     Option.bind (scan esmPattern source addMapped d3) (\<lambda>d4.
     Option.bind (scan denoPattern source addMappedNonEmpty d4) (\<lambda>d5.
     Some (usageSignatures source d5))))))"

lemmas rx_eval = matchAt_def inCls_def isDigit_def isSpace_def isLineTerminator_def execAll.simps scan_def
  lit_def quote_def setAdd_def capture_def trim_def

lemmas deps_eval = npmPattern_def npmScopedPattern_def jsrPattern_def esmPattern_def denoPattern_def
  addMapped_def addMappedNonEmpty_def usageSignatures_def mapPackage_def
  packageMappings_def objectPrototypeMembers_def extractDependencies_def

text \<open>
  Claim C8 says that the set returned by extractDependencies never holds the empty string,
  on every extraction path.  Only the deno.land loop tests the mapped name before adding
  it; the npm:, jsr: and esm.sh loops add whatever mapPackage returns.  For the import
  \<open>import { join } from "npm:std/path"\<close> mapPackage returns the empty string (the name
  contains \<open>std/\<close>), and the returned set is exactly \<open>{""}\<close>.
\<close>

theorem extractDependencies_npm_std_empty:
  "extractDependencies ''import { join } from \"npm:std/path\"'' = Some [Str '''']"
  by (simp add: rx_eval deps_eval)

section \<open>Module specifier rewriting (transform, pass 1)\<close>

definition npmPrefixRx :: rx where
  "npmPrefixRx = Seq Bol (lit ''npm:'')"

definition jsrPrefixRx :: rx where
  "jsrPrefixRx = Seq Bol (lit ''jsr:'')"

definition scopedRx :: rx where
  "scopedRx = seqs [Bol,
     Grp 1 (seqs [Chr CHR ''@'', Plus (NotIn [C CHR ''/'']), Chr CHR ''/'', Plus (NotIn [C CHR ''@''])]),
     Opt (Seq (Chr CHR ''@'') (Star Dot)), Eol]"

definition versionRx :: rx where
  "versionRx = seqs [Chr CHR ''@'',
     In [Digit, C CHR ''.'', C CHR ''^'', C CHR ''~'', C CHR ''>'', C CHR ''='', C CHR ''<''],
     Star Dot, Eol]"

definition denoLandRx :: rx where
  "denoLandRx = seqs [lit ''deno.land/x/'', Grp 1 (Plus (NotIn [C CHR ''@'', C CHR ''/''])),
     Opt (Seq (Chr CHR ''@'') (Plus (NotIn [C CHR ''/'']))),
     Opt (Seq (Chr CHR ''/'') (Grp 2 (Star Dot))), Eol]"

definition fallbackRx :: rx where
  "fallbackRx = seqs [Chr CHR ''/'', Grp 1 (Plus (NotIn [C CHR ''/'', C CHR ''@''])),
     Opt (Seq (Chr CHR ''@'') (Plus (NotIn [C CHR ''/'']))),
     Opt (Seq (Chr CHR ''/'') (Grp 2 (Star Dot))), Eol]"

definition tsExtRx :: rx where
  "tsExtRx = seqs [lit ''.ts'', Eol]"

definition modOnlyRx :: rx where
  "modOnlyRx = seqs [Bol, lit ''mod'', Eol]"

definition slashModRx :: rx where
  "slashModRx = seqs [lit ''/mod'', Eol]"

definition esmScopedRx :: rx where
  "esmScopedRx = seqs [lit ''esm.sh/'',
     Grp 1 (seqs [Chr CHR ''@'', Plus (NotIn [C CHR ''/'']), Chr CHR ''/'',
                  Plus (NotIn [C CHR ''@'', C CHR ''?''])]),
     Opt (Seq (Chr CHR ''@'') (Star (NotIn [C CHR ''/'', C CHR ''?''])))]"

definition esmRx :: rx where
  "esmRx = seqs [lit ''esm.sh/'', Grp 1 (Plus (NotIn [C CHR ''@'', C CHR ''?'', C CHR ''/''])),
     Opt (Seq (Chr CHR ''@'') (Star (NotIn [C CHR ''/'', C CHR ''?''])))]"

text \<open>The two mapping objects; \<open>None\<close> is the value \<open>null\<close>.\<close>

definition denoLandMapping :: "(string \<times> string option) list" where
  "denoLandMapping = [(''std'', None), (''oak'', Some ''koa''), (''cors'', Some ''cors''),
     (''dotenv'', Some ''dotenv''), (''postgres'', Some ''pg''), (''mysql'', Some ''mysql2''),
     (''redis'', Some ''redis''), (''bcrypt'', Some ''bcrypt'')]"

definition fallbackMapping :: "(string \<times> string option) list" where
  "fallbackMapping = [(''std'', None), (''oak'', Some ''koa''), (''cors'', Some ''cors''),
     (''dotenv'', Some ''dotenv''), (''postgres'', Some ''pg''), (''mysql'', Some ''mysql2''),
     (''redis'', Some ''redis'')]"

text \<open>
  \<open>if (mapping[pkgName] !== undefined) { if (mapping[pkgName]) value = mapping[pkgName] + subPath }
  else value = pkgName + subPath\<close>: a name mapped to \<open>null\<close> leaves the specifier as it is,
  and a name that the lookup finds on the prototype puts the text of the inherited
  member in front of the subpath.
\<close>

definition applyMapping :: "(string \<times> string option) list \<Rightarrow> string \<Rightarrow> string \<Rightarrow> string \<Rightarrow> string" where
  "applyMapping mapping pkgName subPath source =
     (case map_of mapping pkgName of
        Some entry \<Rightarrow> (case entry of Some target \<Rightarrow> target @ subPath | None \<Rightarrow> source)
      | None \<Rightarrow>
          if pkgName \<in> set objectPrototypeMembers then memberText pkgName @ subPath
          else pkgName @ subPath)"

definition npmBranch :: "string \<Rightarrow> string" where
  "npmBranch source =
     (let cleaned = rxReplace npmPrefixRx '''' source in
      if startsWith cleaned ''@''
      then (case rxMatch scopedRx cleaned of Some c \<Rightarrow> capture c 1 | None \<Rightarrow> cleaned)
      else rxReplace versionRx '''' cleaned)"

definition jsrBranch :: "string \<Rightarrow> string" where
  "jsrBranch source =
     (let cleaned = rxReplace jsrPrefixRx '''' source in
      if startsWith cleaned ''@''
      then (case rxMatch scopedRx cleaned of Some c \<Rightarrow> capture c 1 | None \<Rightarrow> cleaned)
      else rxReplace versionRx '''' cleaned)"

definition denoLandBranch :: "string \<Rightarrow> string" where
  "denoLandBranch source =
     (case rxMatch denoLandRx source of
        Some c \<Rightarrow>
          (let pkgName = capture c 1;
               subPath =
                 (if capture c 2 \<noteq> ''''
                  then (let cleaned = rxReplace slashModRx '''' (rxReplace modOnlyRx ''''
                                        (rxReplace tsExtRx '''' (capture c 2)))
                        in if cleaned \<noteq> '''' then ''/'' @ cleaned else '''')
                  else '''')
           in applyMapping denoLandMapping pkgName subPath source)
      | None \<Rightarrow>
          (case rxMatch fallbackRx source of
             Some c \<Rightarrow>
               (let pkgName = capture c 1;
                    subPath = (if capture c 2 \<noteq> ''''
                               then ''/'' @ rxReplace tsExtRx '''' (capture c 2) else '''')
                in applyMapping fallbackMapping pkgName subPath source)
           | None \<Rightarrow> source))"

definition esmBranch :: "string \<Rightarrow> string" where
  "esmBranch source =
     (case rxMatch esmScopedRx source of
        Some c \<Rightarrow> capture c 1
      | None \<Rightarrow> (case rxMatch esmRx source of Some c \<Rightarrow> capture c 1 | None \<Rightarrow> source))"

text \<open>The new value of \<open>path.node.source.value\<close> after the first pass.\<close>

definition rewriteImportSource :: "string \<Rightarrow> string" where
  "rewriteImportSource source =
     (if startsWith source ''npm:'' then npmBranch source
      else if startsWith source ''jsr:'' then jsrBranch source
      else if includesStr source ''deno.land'' then denoLandBranch source
      else if includesStr source ''esm.sh'' then esmBranch source
      else source)"

lemmas spec_eval = npmPrefixRx_def jsrPrefixRx_def scopedRx_def versionRx_def denoLandRx_def
  fallbackRx_def tsExtRx_def modOnlyRx_def slashModRx_def esmScopedRx_def esmRx_def
  denoLandMapping_def fallbackMapping_def applyMapping_def objectPrototypeMembers_def memberText_def
  npmBranch_def jsrBranch_def
  denoLandBranch_def esmBranch_def rewriteImportSource_def rxMatch_def rxReplace_def



lemma take_front: "take (length (xs @ ys) - length ys) (xs @ ys) = xs"
  by simp

lemma npmPrefix_strip: "rxReplace npmPrefixRx '''' (''npm:'' @ t) = t"
  by (simp add: rxReplace_def npmPrefixRx_def lit_def matchAt_def)

lemma jsrPrefix_strip: "rxReplace jsrPrefixRx '''' (''jsr:'' @ t) = t"
  by (simp add: rxReplace_def jsrPrefixRx_def lit_def matchAt_def)

definition isVersionStart :: "char \<Rightarrow> bool" where
  "isVersionStart v = (isDigit v \<or> v \<in> set ''.^~>=<'')"

lemma versionRx_strip:
  assumes "\<forall>x \<in> set pkg. x \<noteq> CHR ''@''" "isVersionStart v" "\<forall>x \<in> set vs. \<not> isLineTerminator x"
  shows "rxReplace versionRx '''' (pkg @ CHR ''@'' # v # vs) = pkg"
proof -
  let ?n = "length (pkg @ CHR ''@'' # v # vs)"
  let ?r = "Seq (In [Digit, C CHR ''.'', C CHR ''^'', C CHR ''~'', C CHR ''>'', C CHR ''='', C CHR ''<''])
              (Seq (Star Dot) Eol)"
  have vr: "versionRx = Seq (Chr CHR ''@'') ?r" by (simp add: versionRx_def)
  have star: "starM (charStep (\<lambda>x. \<not> isLineTerminator x)) (length vs) vs c
                (\<lambda>s' c'. rxm ?n Eol s' c' (\<lambda>s' c. Some (c, s'))) = Some (c, [])" for c :: caps
    using starM_charStep_max [of vs "\<lambda>x. \<not> isLineTerminator x" "[]"
        "\<lambda>s' c'. rxm ?n Eol s' c' (\<lambda>s' c. Some (c, s'))" c "(c, [])" "length vs"] assms(3)
    by simp
  have hit: "matchAt versionRx ?n (CHR ''@'' # v # vs) = Some (\<lambda>_. None, [])"
    using assms(2) star [of "\<lambda>_. None"]
    by (auto simp: vr matchAt_def isVersionStart_def inCls_def)
  have "searchFrom versionRx ?n (pkg @ CHR ''@'' # v # vs) = Some (CHR ''@'' # v # vs, \<lambda>_. None, [])"
    unfolding vr using searchFrom_skip [OF assms(1), of ?r ?n "CHR ''@'' # v # vs"] hit [unfolded vr]
    by simp
  then show ?thesis by (simp add: rxReplace_def)
qed

lemma scopedRx_match:
  assumes "scope \<noteq> []" "\<forall>x \<in> set scope. x \<noteq> CHR ''/''"
    and "name \<noteq> []" "\<forall>x \<in> set name. x \<noteq> CHR ''@''"
    and "\<forall>x \<in> set ver. \<not> isLineTerminator x"
  shows "\<exists>c. rxMatch scopedRx (CHR ''@'' # scope @ CHR ''/'' # name @ CHR ''@'' # ver) = Some c
             \<and> capture c 1 = CHR ''@'' # scope @ CHR ''/'' # name"
proof -
  let ?s = "CHR ''@'' # scope @ CHR ''/'' # name @ CHR ''@'' # ver"
  let ?c1 = "(\<lambda>_. None)(1 \<mapsto> CHR ''@'' # scope @ CHR ''/'' # name)"
  have tk: "take (length ?s - length (CHR ''@'' # ver)) ?s = CHR ''@'' # scope @ CHR ''/'' # name"
    using take_front [of "CHR ''@'' # scope @ CHR ''/'' # name" "CHR ''@'' # ver"] by simp
  have "rxm (length ?s) scopedRx ?s (\<lambda>_. None) (\<lambda>s' c. Some (c, s')) = Some (?c1, [])"
    unfolding scopedRx_def seqs.simps
    apply (rule rxm_SeqI, rule rxm_BolI, simp)
    apply (rule rxm_SeqI, rule rxm_GrpI)
    apply (rule rxm_SeqI, rule rxm_ChrI)
    apply (rule rxm_SeqI, rule rxm_PlusNotInI)
    using assms(1,2) apply (simp_all add: inCls_def) [3]
    apply (rule rxm_SeqI, rule rxm_ChrI)
    apply (rule rxm_PlusNotInI)
    using assms(3,4) apply (simp_all add: inCls_def) [3]
    apply (subst tk)
    apply (rule rxm_SeqI, rule rxm_OptI, rule rxm_SeqI, rule rxm_ChrI, rule rxm_StarDotI)
    using assms(5) apply simp
    apply (rule rxm_EolI)
    apply simp
    done
  then have "rxMatch scopedRx ?s = Some ?c1"
    by (simp add: rxMatch_def matchAt_def)
  then show ?thesis by (auto simp: capture_def)
qed

lemma npmBranch_unscoped:
  assumes "pkg \<noteq> []" "\<forall>x \<in> set pkg. x \<noteq> CHR ''@''" "isVersionStart v"
    "\<forall>x \<in> set vs. \<not> isLineTerminator x"
  shows "npmBranch (''npm:'' @ pkg @ CHR ''@'' # v # vs) = pkg"
proof -
  from assms(1,2) have "\<not> startsWith (pkg @ CHR ''@'' # v # vs) ''@''"
    by (cases pkg) auto
  with versionRx_strip [OF assms(2-4)] show ?thesis
    using npmPrefix_strip [of "pkg @ CHR ''@'' # v # vs"] by (simp add: npmBranch_def)
qed

lemma npmBranch_scoped:
  assumes "scope \<noteq> []" "\<forall>x \<in> set scope. x \<noteq> CHR ''/''"
    and "name \<noteq> []" "\<forall>x \<in> set name. x \<noteq> CHR ''@''"
    and "\<forall>x \<in> set ver. \<not> isLineTerminator x"
  shows "npmBranch (''npm:@'' @ scope @ CHR ''/'' # name @ CHR ''@'' # ver) = CHR ''@'' # scope @ CHR ''/'' # name"
proof -
  from scopedRx_match [OF assms] obtain c
    where "rxMatch scopedRx (CHR ''@'' # scope @ CHR ''/'' # name @ CHR ''@'' # ver) = Some c"
      "capture c 1 = CHR ''@'' # scope @ CHR ''/'' # name" by blast
  then show ?thesis
    using npmPrefix_strip [of "CHR ''@'' # scope @ CHR ''/'' # name @ CHR ''@'' # ver"]
    by (simp add: npmBranch_def)
qed

lemma jsr_like_npm: "rewriteImportSource (''jsr:'' @ x) = rewriteImportSource (''npm:'' @ x)"
  using npmPrefix_strip [of x] jsrPrefix_strip [of x]
  by (simp add: rewriteImportSource_def npmBranch_def jsrBranch_def)

section \<open>Environment-variable extraction (extractEnvVariables)\<close>

abbreviation bq :: char where "bq \<equiv> CHR 0x60"

definition denoEnvPattern :: rx where
  "denoEnvPattern = seqs [lit ''Deno.env.get'', Star (In [Space]), Chr CHR ''('', Star (In [Space]),
     In [C sq, C dq], Grp 1 (Plus (NotIn [C sq, C dq])), In [C sq, C dq],
     Star (In [Space]), Chr CHR '')'']"

definition denoEnvPattern2 :: rx where
  "denoEnvPattern2 = seqs [lit ''Deno.env.get'', Star (In [Space]), Chr CHR ''('', Star (In [Space]),
     In [C bq], Grp 1 (Plus (NotIn [C bq])), In [C bq],
     Star (In [Space]), Chr CHR '')'']"

definition envName :: rx where
  "envName = Seq (In [Rng CHR ''A'' CHR ''Z'', C CHR ''_''])
                 (Star (In [Rng CHR ''A'' CHR ''Z'', Rng CHR ''0'' CHR ''9'', C CHR ''_'']))"

definition processEnvPattern :: rx where
  "processEnvPattern = seqs [lit ''process.env.'', Grp 1 envName]"

definition processEnvBracketPattern :: rx where
  "processEnvBracketPattern = seqs [lit ''process.env['', In [C sq, C dq],
     Grp 1 (Plus (NotIn [C sq, C dq])), In [C sq, C dq], Chr CHR '']'']"

definition viteEnvPattern :: rx where
  "viteEnvPattern = seqs [lit ''import.meta.env.'', Grp 1 envName]"

definition commonEnvVars :: "string list" where
  "commonEnvVars = [''SUPABASE_URL'', ''SUPABASE_ANON_KEY'', ''SUPABASE_SERVICE_ROLE_KEY'',
     ''SUPABASE_JWT_SECRET'', ''DATABASE_URL'', ''OPENAI_API_KEY'', ''STRIPE_SECRET_KEY'',
     ''STRIPE_WEBHOOK_SECRET'', ''RESEND_API_KEY'', ''SENDGRID_API_KEY'', ''JWT_SECRET'',
     ''API_KEY'', ''SECRET_KEY'']"

text \<open>The loop bodies: \<open>envVars.add(match[1])\<close>, and the same guarded by
  \<open>!match[1].includes('$')\<close> for the template-literal pattern.\<close>

definition addCapture :: "caps \<Rightarrow> string list \<Rightarrow> string list" where
  "addCapture c envVars = setAdd (capture c 1) envVars"

definition addCaptureNoDollar :: "caps \<Rightarrow> string list \<Rightarrow> string list" where
  "addCaptureNoDollar c envVars =
     (if \<not> includesStr (capture c 1) ''$'' then setAdd (capture c 1) envVars else envVars)"

definition addCommon :: "string \<Rightarrow> string \<Rightarrow> string list \<Rightarrow> string list" where
  "addCommon source envVar envVars = (if includesStr source envVar then setAdd envVar envVars else envVars)"

definition extractEnvVariables :: "string \<Rightarrow> string list option" where
  "extractEnvVariables source =
     Option.bind (scan denoEnvPattern source addCapture []) (\<lambda>e1.
     Option.bind (scan denoEnvPattern2 source addCaptureNoDollar e1) (\<lambda>e2.
     Option.bind (scan processEnvPattern source addCapture e2) (\<lambda>e3.
     Option.bind (scan processEnvBracketPattern source addCapture e3) (\<lambda>e4.
     Option.bind (scan viteEnvPattern source addCapture e4) (\<lambda>e5.
     Some (fold (addCommon source) commonEnvVars e5))))))"

lemmas env_eval = denoEnvPattern_def denoEnvPattern2_def envName_def processEnvPattern_def
  processEnvBracketPattern_def viteEnvPattern_def commonEnvVars_def addCapture_def
  addCaptureNoDollar_def addCommon_def extractEnvVariables_def



subsection \<open>The two \<open>Deno.env.get\<close> patterns\<close>







subsection \<open>A later call is not swallowed by an earlier match\<close>

lemma peel:
  "pre @ X = seg @ t \<Longrightarrow> X = d # X' \<Longrightarrow> d \<notin> set seg \<Longrightarrow> \<exists>pre'. pre = seg @ pre' \<and> t = pre' @ X"
proof (induction seg arbitrary: pre)
  case Nil
  then show ?case by simp
next
  case (Cons a seg)
  show ?case
  proof (cases pre)
    case Nil
    with Cons.prems show ?thesis by auto
  next
    case (Cons b pre0)
    with Cons.prems have "b = a" "pre0 @ X = seg @ t" by auto
    with Cons.IH [of pre0] Cons.prems(2,3) Cons show ?thesis by auto
  qed
qed





subsection \<open>The loop reaches every call\<close>



lemma startsWith_iff: "startsWith s p \<longleftrightarrow> (\<exists>t. s = p @ t)"
  by (induction s p rule: startsWith.induct) auto

lemma includesStr_iff: "includesStr s sub \<longleftrightarrow> (\<exists>pre post. s = pre @ sub @ post)"
proof (induction s)
  case Nil
  then show ?case by auto
next
  case (Cons x xs)
  show ?case
  proof
    assume "includesStr (x # xs) sub"
    then consider "startsWith (x # xs) sub" | "includesStr xs sub" by auto
    then show "\<exists>pre post. x # xs = pre @ sub @ post"
    proof cases
      case 1
      then obtain t where "x # xs = sub @ t" by (auto simp: startsWith_iff)
      then have "x # xs = [] @ sub @ t" by simp
      then show ?thesis by blast
    next
      case 2
      with Cons.IH obtain pre post where "xs = pre @ sub @ post" by blast
      then have "x # xs = (x # pre) @ sub @ post" by simp
      then show ?thesis by blast
    qed
  next
    assume "\<exists>pre post. x # xs = pre @ sub @ post"
    then obtain pre post where e: "x # xs = pre @ sub @ post" by blast
    show "includesStr (x # xs) sub"
    proof (cases pre)
      case Nil
      with e have "startsWith (x # xs) sub" by (auto simp: startsWith_iff)
      then show ?thesis by simp
    next
      case (Cons p pre')
      with e have "xs = pre' @ sub @ post" by simp
      with Cons.IH have "includesStr xs sub" by blast
      then show ?thesis by simp
    qed
  qed
qed


lemma setAdd_set [simp]: "set (setAdd x xs) = insert x (set xs)"
  by (auto simp: setAdd_def)










section \<open>Syntax trees\<close>

text \<open>
  The nodes of the parsed program that the transform inspects or builds, each with the
  fields the transform reads, and \<open>Other\<close> for every other node type: its type name, the
  children it holds in single-valued fields and the children it holds in an array-valued
  field.  \<open>NoNode\<close> is an absent child (\<open>null\<close>).  Type annotations are not part of the
  model, so the pass that replaces \<open>Deno.X\<close> type references by \<open>any\<close> is not modelled.
\<close>

datatype node =
    Identifier string
  | StringLiteral string
  | NoNode
  | MemberExpression node node bool
  | CallExpression node "node list"
  | LogicalExpression string node node
  | AwaitExpression node
  | ImportExpression node
  | ArrowFunctionExpression "node list" node bool
  | FunctionExpression "node list" node bool
  | ObjectExpression "node list"
  | ObjectProperty node node
  | ExpressionStatement node
  | ExportDefaultDeclaration node
  | FunctionDeclaration node "node list" node bool
  | ImportDeclaration "node list" string
  | ImportSpecifier string string
  | VariableDeclarator node node
  | ReturnStatement node
  | BlockStatement "node list"
  | Program "node list"
  | Other string "node list" "node list"

text \<open>The child fields of a node in the order the traversal visits them.\<close>

datatype slot = One node | Many "node list"

fun slots :: "node \<Rightarrow> slot list" where
  "slots (Identifier x) = []"
| "slots (StringLiteral s) = []"
| "slots NoNode = []"
| "slots (MemberExpression ob pr computed) = [One ob, One pr]"
| "slots (CallExpression callee args) = [One callee, Many args]"
| "slots (LogicalExpression oper l r) = [One l, One r]"
| "slots (AwaitExpression a) = [One a]"
| "slots (ImportExpression s) = [One s]"
| "slots (ArrowFunctionExpression ps body a) = [Many ps, One body]"
| "slots (FunctionExpression ps body a) = [Many ps, One body]"
| "slots (ObjectExpression props) = [Many props]"
| "slots (ObjectProperty k v) = [One k, One v]"
| "slots (ExpressionStatement e) = [One e]"
| "slots (ExportDefaultDeclaration d) = [One d]"
| "slots (FunctionDeclaration i ps body a) = [One i, Many ps, One body]"
| "slots (ImportDeclaration specs src) = [Many specs]"
| "slots (ImportSpecifier imported loc) = []"
| "slots (VariableDeclarator i init) = [One i, One init]"
| "slots (ReturnStatement a) = [One a]"
| "slots (BlockStatement body) = [Many body]"
| "slots (Program body) = [Many body]"
| "slots (Other tag singles arrays) = map One singles @ [Many arrays]"

fun slotNodes :: "slot \<Rightarrow> node list" where
  "slotNodes (One c) = [c]"
| "slotNodes (Many cs) = cs"

definition kids :: "node \<Rightarrow> node list" where
  "kids n = concat (map slotNodes (slots n))"

definition oneAt :: "slot list \<Rightarrow> nat \<Rightarrow> node" where
  "oneAt sl i = (case drop i sl of One c # _ \<Rightarrow> c | _ \<Rightarrow> NoNode)"

definition manyAt :: "slot list \<Rightarrow> nat \<Rightarrow> node list" where
  "manyAt sl i = (case drop i sl of Many cs # _ \<Rightarrow> cs | _ \<Rightarrow> [])"

text \<open>The same node with new children.\<close>

fun build :: "node \<Rightarrow> slot list \<Rightarrow> node" where
  "build (Identifier x) sl = Identifier x"
| "build (StringLiteral s) sl = StringLiteral s"
| "build NoNode sl = NoNode"
| "build (MemberExpression ob pr computed) sl = MemberExpression (oneAt sl 0) (oneAt sl 1) computed"
| "build (CallExpression callee args) sl = CallExpression (oneAt sl 0) (manyAt sl 1)"
| "build (LogicalExpression oper l r) sl = LogicalExpression oper (oneAt sl 0) (oneAt sl 1)"
| "build (AwaitExpression a) sl = AwaitExpression (oneAt sl 0)"
| "build (ImportExpression s) sl = ImportExpression (oneAt sl 0)"
| "build (ArrowFunctionExpression ps body a) sl = ArrowFunctionExpression (manyAt sl 0) (oneAt sl 1) a"
| "build (FunctionExpression ps body a) sl = FunctionExpression (manyAt sl 0) (oneAt sl 1) a"
| "build (ObjectExpression props) sl = ObjectExpression (manyAt sl 0)"
| "build (ObjectProperty k v) sl = ObjectProperty (oneAt sl 0) (oneAt sl 1)"
| "build (ExpressionStatement e) sl = ExpressionStatement (oneAt sl 0)"
| "build (ExportDefaultDeclaration d) sl = ExportDefaultDeclaration (oneAt sl 0)"
| "build (FunctionDeclaration i ps body a) sl = FunctionDeclaration (oneAt sl 0) (manyAt sl 1) (oneAt sl 2) a"
| "build (ImportDeclaration specs src) sl = ImportDeclaration (manyAt sl 0) src"
| "build (ImportSpecifier imported loc) sl = ImportSpecifier imported loc"
| "build (VariableDeclarator i init) sl = VariableDeclarator (oneAt sl 0) (oneAt sl 1)"
| "build (ReturnStatement a) sl = ReturnStatement (oneAt sl 0)"
| "build (BlockStatement body) sl = BlockStatement (manyAt sl 0)"
| "build (Program body) sl = Program (manyAt sl 0)"
| "build (Other tag singles arrays) sl =
     Other tag (concat (map slotNodes (take (length singles) sl))) (manyAt sl (length singles))"

fun mapSlot :: "(node \<Rightarrow> node) \<Rightarrow> slot \<Rightarrow> slot" where
  "mapSlot f (One c) = One (f c)"
| "mapSlot f (Many cs) = Many (map f cs)"

text \<open>Apply \<open>f\<close> to every child of a node.\<close>

definition descend :: "(node \<Rightarrow> node) \<Rightarrow> node \<Rightarrow> node" where
  "descend f n = build n (map (mapSlot f) (slots n))"

lemma oneAt_simps [simp]:
  "oneAt (One c # sl) 0 = c" "oneAt (Many cs # sl) 0 = NoNode" "oneAt [] i = NoNode"
  "oneAt (s # sl) (Suc i) = oneAt sl i"
  by (simp_all add: oneAt_def)

lemma manyAt_simps [simp]:
  "manyAt (Many cs # sl) 0 = cs" "manyAt (One c # sl) 0 = []" "manyAt [] i = []"
  "manyAt (s # sl) (Suc i) = manyAt sl i"
  by (simp_all add: manyAt_def)

lemma oneAt_numeral [simp]: "oneAt (s # sl) 1 = oneAt sl 0" "oneAt (s # t # sl) 2 = oneAt sl 0"
  by (simp_all add: oneAt_def)

lemma manyAt_numeral [simp]: "manyAt (s # sl) 1 = manyAt sl 0"
  by (simp_all add: manyAt_def)

lemma manyAt_singles [simp]: "manyAt (map One xs @ [Many ys]) (length xs) = ys"
  by (simp add: manyAt_def)

lemma take_singles [simp]: "concat (map slotNodes (take (length xs) (map One xs @ sl))) = xs"
  by (induction xs) auto

lemma slotNodes_One [simp]: "slotNodes \<circ> One = (\<lambda>c. [c])" "mapSlot f \<circ> One = One \<circ> f"
  by (simp_all add: fun_eq_iff)

lemma concat_singletons [simp]: "concat (map (\<lambda>c. [c]) xs) = xs"
  by (induction xs) auto

lemma build_slots [simp]: "build n (slots n) = n"
  by (cases n) simp_all

lemma descend_simps [simp]:
  "descend f (Identifier x) = Identifier x"
  "descend f (StringLiteral str) = StringLiteral str"
  "descend f NoNode = NoNode"
  "descend f (MemberExpression ob pr computed) = MemberExpression (f ob) (f pr) computed"
  "descend f (CallExpression callee args) = CallExpression (f callee) (map f args)"
  "descend f (LogicalExpression oper l r) = LogicalExpression oper (f l) (f r)"
  "descend f (AwaitExpression arg2) = AwaitExpression (f arg2)"
  "descend f (ImportExpression e) = ImportExpression (f e)"
  "descend f (ArrowFunctionExpression ps body isAsync) = ArrowFunctionExpression (map f ps) (f body) isAsync"
  "descend f (FunctionExpression ps body isAsync) = FunctionExpression (map f ps) (f body) isAsync"
  "descend f (ObjectExpression props) = ObjectExpression (map f props)"
  "descend f (ObjectProperty k v) = ObjectProperty (f k) (f v)"
  "descend f (ExpressionStatement st) = ExpressionStatement (f st)"
  "descend f (ExportDefaultDeclaration d) = ExportDefaultDeclaration (f d)"
  "descend f (FunctionDeclaration i ps body isAsync) = FunctionDeclaration (f i) (map f ps) (f body) isAsync"
  "descend f (ImportDeclaration specs src) = ImportDeclaration (map f specs) src"
  "descend f (ImportSpecifier imported loc) = ImportSpecifier imported loc"
  "descend f (VariableDeclarator vid init) = VariableDeclarator (f vid) (f init)"
  "descend f (ReturnStatement arg) = ReturnStatement (f arg)"
  "descend f (BlockStatement stmts) = BlockStatement (map f stmts)"
  "descend f (Program stmts) = Program (map f stmts)"
  by (simp_all add: descend_def)

lemma descend_Other [simp]:
  "descend f (Other tag singles arrays) = Other tag (map f singles) (map f arrays)"
proof -
  have a: "map (mapSlot f) (map One singles @ [Many arrays]) = map One (map f singles) @ [Many (map f arrays)]"
    by (induction singles) auto
  have "concat (map slotNodes (take (length singles) (map One (map f singles) @ [Many (map f arrays)])))
          = map f singles"
    using take_singles [of "map f singles" "[Many (map f arrays)]"] by simp
  moreover have "manyAt (map One (map f singles) @ [Many (map f arrays)]) (length singles) = map f arrays"
    using manyAt_singles [of "map f singles" "map f arrays"] by simp
  ultimately show ?thesis by (simp only: descend_def a slots.simps build.simps length_map)
qed

lemma kids_size [termination_simp]: "c \<in> set (kids n) \<Longrightarrow> size c < size n"
proof (cases n)
  case (Other tag singles arrays)
  assume "c \<in> set (kids n)"
  with Other have "c \<in> set singles \<or> c \<in> set arrays"
    by (auto simp: kids_def)
  then show ?thesis
    using Other by (auto dest: size_list_estimation' [where f = size, OF _ order_refl] simp: less_Suc_eq_le)
qed (auto simp: kids_def dest: size_list_estimation' [where f = size, OF _ order_refl] simp: less_Suc_eq_le)

lemma descend_cong [fundef_cong]:
  assumes "n = n'" "\<And>c. c \<in> set (kids n') \<Longrightarrow> f c = g c"
  shows "descend f n = descend g n'"
proof -
  have "map (mapSlot f) (slots n') = map (mapSlot g) (slots n')"
  proof (rule map_cong [OF refl])
    fix s assume "s \<in> set (slots n')"
    then have "\<forall>c \<in> set (slotNodes s). f c = g c"
      using assms(2) by (auto simp: kids_def)
    then show "mapSlot f s = mapSlot g s" by (cases s) auto
  qed
  with assms(1) show ?thesis by (simp only: descend_def)
qed

text \<open>A field edit applied at every node (the children first).\<close>

fun everywhere :: "(node \<Rightarrow> node) \<Rightarrow> node \<Rightarrow> node" where
  "everywhere g n = g (descend (everywhere g) n)"

declare everywhere.simps [simp del]

fun anyNode :: "(node \<Rightarrow> bool) \<Rightarrow> node \<Rightarrow> bool" where
  "anyNode P n = (P n \<or> list_ex (anyNode P) (kids n))"

declare anyNode.simps [simp del]

fun countNodes :: "(node \<Rightarrow> bool) \<Rightarrow> node \<Rightarrow> nat" where
  "countNodes P n = (if P n then 1 else 0) + sum_list (map (countNodes P) (kids n))"

declare countNodes.simps [simp del]

section \<open>The transform (transforms/deno-to-handler.cjs)\<close>

fun identName :: "node \<Rightarrow> string option" where
  "identName (Identifier x) = Some x"
| "identName n = None"

fun isFunctionLiteral :: "node \<Rightarrow> bool" where
  "isFunctionLiteral (ArrowFunctionExpression ps body a) = True"
| "isFunctionLiteral (FunctionExpression ps body a) = True"
| "isFunctionLiteral n = False"

fun isBlockStatement :: "node \<Rightarrow> bool" where
  "isBlockStatement (BlockStatement body) = True"
| "isBlockStatement n = False"

fun isAwaitExpression :: "node \<Rightarrow> bool" where
  "isAwaitExpression (AwaitExpression a) = True"
| "isAwaitExpression n = False"

fun isExportDefault :: "node \<Rightarrow> bool" where
  "isExportDefault (ExportDefaultDeclaration d) = True"
| "isExportDefault n = False"

subsection \<open>Pass 1: import specifiers\<close>

fun importRule :: "node \<Rightarrow> node" where
  "importRule (ImportDeclaration specs src) = ImportDeclaration specs (rewriteImportSource src)"
| "importRule n = n"

subsection \<open>Passes 2 and 3: \<open>Deno.env.get\<close> and \<open>Deno.env.toObject\<close>\<close>

text \<open>
  The test on the callee: a member expression on a member expression on the identifier
  \<open>Deno\<close>, with the identifiers \<open>env\<close> and the method name as properties.
\<close>

fun isDenoEnvCallee :: "string \<Rightarrow> node \<Rightarrow> bool" where
  "isDenoEnvCallee meth (MemberExpression ob pr computed) =
     (case ob of
        MemberExpression ob2 pr2 computed2 \<Rightarrow>
          identName ob2 = Some ''Deno'' \<and> identName pr2 = Some ''env'' \<and> identName pr = Some meth
      | _ \<Rightarrow> False)"
| "isDenoEnvCallee meth n = False"

definition processEnv :: node where
  "processEnv = MemberExpression (Identifier ''process'') (Identifier ''env'') False"

text \<open>\<open>process.env[arg] ?? ""\<close>, with the empty string literal for a missing argument.\<close>

definition envGetReplacement :: "node list \<Rightarrow> node" where
  "envGetReplacement args =
     LogicalExpression ''??''
       (MemberExpression processEnv (case args of [] \<Rightarrow> StringLiteral '''' | arg # _ \<Rightarrow> arg) True)
       (StringLiteral '''')"

text \<open>
  The pass collects the paths of all call expressions first and then replaces each
  matching call by a node built from its first argument.  The argument node moves into
  the new node as it is; paths below it still point into it, so calls inside the
  argument are replaced, while a replacement made at the path of the argument itself
  lands in the argument list of the call that is already gone.
\<close>

function envGetRewrite :: "node \<Rightarrow> node" where
  "envGetRewrite n =
     (case n of
        CallExpression callee args \<Rightarrow>
          if isDenoEnvCallee ''get'' callee
          then envGetReplacement (case args of [] \<Rightarrow> [] | arg # rest \<Rightarrow> [descend envGetRewrite arg])
          else descend envGetRewrite n
      | _ \<Rightarrow> descend envGetRewrite n)"
  by pat_completeness auto
termination
proof (relation "measure size")
  show "wf (measure size)" by simp
next
  fix n callee args arg rest c
  assume "n = CallExpression callee args" "args = arg # rest" "c \<in> set (kids arg)"
  then show "(c, n) \<in> measure size"
    using kids_size [of c arg] by simp
qed (auto dest: kids_size)

declare envGetRewrite.simps [simp del]

text \<open>
  The builder \<open>j.memberExpression\<close> checks its arguments: the key has to be an expression.
  Of the nodes that stand in an argument list the spread element \<open>...e\<close> is none, so a
  call \<open>Deno.env.get(...e)\<close> makes the builder throw.  Every matching call is visited with
  its first argument still in place, hence the pass throws exactly when the tree holds
  such a call.
\<close>

fun isSpreadElement :: "node \<Rightarrow> bool" where
  "isSpreadElement (Other tag singles arrays) = (tag = ''SpreadElement'')"
| "isSpreadElement n = False"

definition spreadKey :: "node \<Rightarrow> bool" where
  "spreadKey n =
     (case n of
        CallExpression callee args \<Rightarrow>
          isDenoEnvCallee ''get'' callee \<and> (case args of [] \<Rightarrow> False | arg # rest \<Rightarrow> isSpreadElement arg)
      | _ \<Rightarrow> False)"

datatype error = CouldNotReplacePath | NotAnExpression | ParseError | PrintError

definition envGetPass :: "node \<Rightarrow> error + node" where
  "envGetPass root = (if anyNode spreadKey root then Inl NotAnExpression else Inr (envGetRewrite root))"

function envToObjectPass :: "node \<Rightarrow> node" where
  "envToObjectPass n =
     (case n of
        CallExpression callee args \<Rightarrow>
          if isDenoEnvCallee ''toObject'' callee then processEnv else descend envToObjectPass n
      | _ \<Rightarrow> descend envToObjectPass n)"
  by pat_completeness auto
termination
  by (relation "measure size") (auto dest: kids_size)

declare envToObjectPass.simps [simp del]

subsection \<open>Pass 4: \<open>serve\<close> imports\<close>

definition serveImportSources :: "string list" where
  "serveImportSources = [''http/server'', ''https://deno.land/std/http/server.ts'',
     ''https://deno.land/std@'', ''std/http/server'']"

fun keepSpecifier :: "node \<Rightarrow> bool" where
  "keepSpecifier (ImportSpecifier imported loc) = (imported \<noteq> ''serve'')"
| "keepSpecifier n = True"

text \<open>What an import declaration is replaced by: nothing when no specifier is left.\<close>

fun serveImportRule :: "node \<Rightarrow> node list option" where
  "serveImportRule (ImportDeclaration specs src) =
     (if list_ex (\<lambda>s. includesStr src s) serveImportSources
      then (let specs' = filter keepSpecifier specs
            in if length specs' = 0 then Some [] else Some [ImportDeclaration specs' src])
      else None)"
| "serveImportRule n = None"

fun mapSlotL :: "(node \<Rightarrow> node list) \<Rightarrow> slot \<Rightarrow> slot" where
  "mapSlotL f (One c) = One (case f c of [c'] \<Rightarrow> c' | _ \<Rightarrow> NoNode)"
| "mapSlotL f (Many cs) = Many (concat (map f cs))"

definition descendL :: "(node \<Rightarrow> node list) \<Rightarrow> node \<Rightarrow> node" where
  "descendL f n = build n (map (mapSlotL f) (slots n))"

lemma descendL_cong [fundef_cong]:
  assumes "n = n'" "\<And>c. c \<in> set (kids n') \<Longrightarrow> f c = g c"
  shows "descendL f n = descendL g n'"
proof -
  have "map (mapSlotL f) (slots n') = map (mapSlotL g) (slots n')"
  proof (rule map_cong [OF refl])
    fix s assume "s \<in> set (slots n')"
    then have "\<forall>c \<in> set (slotNodes s). f c = g c"
      using assms(2) by (auto simp: kids_def)
    then show "mapSlotL f s = mapSlotL g s" by (cases s) (auto cong: map_cong)
  qed
  with assms(1) show ?thesis by (simp only: descendL_def)
qed

text \<open>
  Replace every node for which the rule answers, everywhere in the tree (\<open>find\<close> reaches
  the declarations at every depth; the children are done first here).
\<close>

fun replaceAll :: "(node \<Rightarrow> node list option) \<Rightarrow> node \<Rightarrow> node list" where
  "replaceAll rule n =
     (let n' = descendL (replaceAll rule) n
      in case rule n' of Some repl \<Rightarrow> repl | None \<Rightarrow> [n'])"

declare replaceAll.simps [simp del]

definition serveImportPass :: "node \<Rightarrow> node" where
  "serveImportPass root = descendL (replaceAll serveImportRule) root"

subsection \<open>Passes 4 and 5: the registration call\<close>

text \<open>\<open>hasAwait(j, body)\<close>: an await expression somewhere below \<open>body\<close>.\<close>

definition hasAwait :: "node \<Rightarrow> bool" where
  "hasAwait body = list_ex (anyNode isAwaitExpression) (kids body)"

text \<open>
  The two statements that replace a registration call with a function literal.  The
  code hands \<open>isAsync\<close> to \<open>j.functionDeclaration\<close> as its fifth argument, and the fifth
  parameter of that builder is the field \<open>expression\<close>, not \<open>async\<close>: the declaration is
  built with \<open>async\<close> false, whatever \<open>isAsync\<close> is.  (The field \<open>expression\<close> is not part of
  the model; the printer does not look at it.)  Pass 11 marks the declaration later
  when its body awaits.
\<close>

definition handlerDeclaration :: "node list \<Rightarrow> node \<Rightarrow> bool \<Rightarrow> node list" where
  "handlerDeclaration params body0 declaredAsync =
     (let body = (if \<not> isBlockStatement body0 then BlockStatement [ReturnStatement body0] else body0)
      in [FunctionDeclaration (Identifier ''handler'') params body False,
          ExportDefaultDeclaration (Identifier ''handler'')])"

fun emitHandler :: "node \<Rightarrow> node list option" where
  "emitHandler (ArrowFunctionExpression params body isAsync) = Some (handlerDeclaration params body isAsync)"
| "emitHandler (FunctionExpression params body isAsync) = Some (handlerDeclaration params body isAsync)"
| "emitHandler (Identifier name) = Some [ExportDefaultDeclaration (Identifier name)]"
| "emitHandler n = None"

text \<open>The callback of the \<open>serve(...)\<close> pass on one expression statement.\<close>

fun serveCallback :: "node \<Rightarrow> node list option" where
  "serveCallback (ExpressionStatement expr) =
     (case expr of
        CallExpression callee args \<Rightarrow>
          if identName callee = Some ''serve''
          then (case args of [] \<Rightarrow> None | arg # _ \<Rightarrow> emitHandler arg)
          else None
      | _ \<Rightarrow> None)"
| "serveCallback n = None"

fun isDenoServeCallee :: "node \<Rightarrow> bool" where
  "isDenoServeCallee (MemberExpression ob pr computed) =
     (identName ob = Some ''Deno'' \<and> identName pr = Some ''serve'')"
| "isDenoServeCallee n = False"

fun isHandlerProperty :: "node \<Rightarrow> bool" where
  "isHandlerProperty (ObjectProperty k v) = (identName k = Some ''handler'')"
| "isHandlerProperty n = False"

fun propertyValue :: "node \<Rightarrow> node" where
  "propertyValue (ObjectProperty k v) = v"
| "propertyValue n = NoNode"

text \<open>
  \<open>handlerArg\<close>: the second argument when there is more than one, else the first; of an
  object literal, the value of its \<open>handler\<close> property when it has one.
\<close>

definition denoServeHandlerArg :: "node list \<Rightarrow> node option" where
  "denoServeHandlerArg args =
     (case (if length args > 1 then Some (args ! 1) else (case args of [] \<Rightarrow> None | a # _ \<Rightarrow> Some a)) of
        None \<Rightarrow> None
      | Some h \<Rightarrow>
          (case h of
             ObjectExpression props \<Rightarrow>
               (case find isHandlerProperty props of
                  Some p \<Rightarrow> Some (propertyValue p)
                | None \<Rightarrow> Some h)
           | _ \<Rightarrow> Some h))"

fun denoServeCallback :: "node \<Rightarrow> node list option" where
  "denoServeCallback (ExpressionStatement expr) =
     (case expr of
        CallExpression callee args \<Rightarrow>
          if isDenoServeCallee callee
          then (case denoServeHandlerArg args of None \<Rightarrow> None | Some h \<Rightarrow> emitHandler h)
          else None
      | _ \<Rightarrow> None)"
| "denoServeCallback n = None"

text \<open>
  The traversal with the flag \<open>handlerExported\<close>: once the flag is set every later
  callback returns at once.  A node is replaced by a list of nodes; in an array-valued
  field the list is spliced in, in a single-valued field only one node fits and a longer
  list throws.
\<close>

type_synonym walked = "error + bool \<times> node list"

primrec threadList :: "(node \<Rightarrow> bool \<Rightarrow> walked) \<Rightarrow> node list \<Rightarrow> bool \<Rightarrow> walked" where
  "threadList f [] flag = Inr (flag, [])"
| "threadList f (c # cs) flag =
     (case f c flag of
        Inl e \<Rightarrow> Inl e
      | Inr (flag1, r) \<Rightarrow>
          (case threadList f cs flag1 of
             Inl e \<Rightarrow> Inl e
           | Inr (flag2, cs') \<Rightarrow> Inr (flag2, r @ cs')))"

fun threadSlot :: "(node \<Rightarrow> bool \<Rightarrow> walked) \<Rightarrow> slot \<Rightarrow> bool \<Rightarrow> error + bool \<times> slot" where
  "threadSlot f (One c) flag =
     (case f c flag of
        Inl e \<Rightarrow> Inl e
      | Inr (flag1, r) \<Rightarrow>
          (case r of
             [] \<Rightarrow> Inr (flag1, One NoNode)
           | [c'] \<Rightarrow> Inr (flag1, One c')
           | _ \<Rightarrow> Inl CouldNotReplacePath))"
| "threadSlot f (Many cs) flag =
     (case threadList f cs flag of Inl e \<Rightarrow> Inl e | Inr (flag1, cs') \<Rightarrow> Inr (flag1, Many cs'))"

primrec threadSlots :: "(node \<Rightarrow> bool \<Rightarrow> walked) \<Rightarrow> slot list \<Rightarrow> bool \<Rightarrow> error + bool \<times> slot list" where
  "threadSlots f [] flag = Inr (flag, [])"
| "threadSlots f (s # ss) flag =
     (case threadSlot f s flag of
        Inl e \<Rightarrow> Inl e
      | Inr (flag1, s') \<Rightarrow>
          (case threadSlots f ss flag1 of
             Inl e \<Rightarrow> Inl e
           | Inr (flag2, ss') \<Rightarrow> Inr (flag2, s' # ss')))"

definition stepKids :: "(node \<Rightarrow> bool \<Rightarrow> walked) \<Rightarrow> node \<Rightarrow> bool \<Rightarrow> walked" where
  "stepKids f n flag =
     (case threadSlots f (slots n) flag of
        Inl e \<Rightarrow> Inl e
      | Inr (flag1, sl) \<Rightarrow> Inr (flag1, [build n sl]))"

lemma threadList_cong:
  "(\<And>c fl. c \<in> set cs \<Longrightarrow> f c fl = g c fl) \<Longrightarrow> threadList f cs flag = threadList g cs flag"
  by (induction cs arbitrary: flag) (auto split: sum.splits)

lemma threadSlot_cong:
  "(\<And>c fl. c \<in> set (slotNodes s) \<Longrightarrow> f c fl = g c fl) \<Longrightarrow> threadSlot f s flag = threadSlot g s flag"
  by (cases s) (auto cong: threadList_cong)

lemma threadSlots_cong:
  "(\<And>c fl. c \<in> set (concat (map slotNodes ss)) \<Longrightarrow> f c fl = g c fl)
     \<Longrightarrow> threadSlots f ss flag = threadSlots g ss flag"
proof (induction ss arbitrary: flag)
  case Nil
  show ?case by simp
next
  case (Cons s ss)
  have "threadSlot f s flag = threadSlot g s flag"
    by (rule threadSlot_cong) (simp add: Cons.prems)
  moreover have "threadSlots f ss fl = threadSlots g ss fl" for fl
    by (rule Cons.IH) (simp add: Cons.prems)
  ultimately show ?case by (simp split: sum.splits prod.splits)
qed

lemma stepKids_cong [fundef_cong]:
  assumes "n = n'" "flag = flag'" "\<And>c fl. c \<in> set (kids n') \<Longrightarrow> f c fl = g c fl"
  shows "stepKids f n flag = stepKids g n' flag'"
  unfolding stepKids_def assms(1,2)
  using threadSlots_cong [of "slots n'" f g flag'] assms(3) by (simp add: kids_def)

fun walk :: "(node \<Rightarrow> node list option) \<Rightarrow> node \<Rightarrow> bool \<Rightarrow> walked" where
  "walk callback n handlerExported =
     (if handlerExported then Inr (True, [n])
      else (case callback n of
              Some repl \<Rightarrow> Inr (True, repl)
            | None \<Rightarrow> stepKids (walk callback) n handlerExported))"

declare walk.simps [simp del]

text \<open>One pass over the whole tree; the root itself is never replaced.\<close>

definition runPass :: "(node \<Rightarrow> node list option) \<Rightarrow> node \<Rightarrow> bool \<Rightarrow> error + bool \<times> node" where
  "runPass callback root handlerExported =
     (case stepKids (walk callback) root handlerExported of
        Inl e \<Rightarrow> Inl e
      | Inr (flag, r) \<Rightarrow> (case r of [root'] \<Rightarrow> Inr (flag, root') | _ \<Rightarrow> Inl CouldNotReplacePath))"

text \<open>\<open>let handlerExported = false\<close>, the \<open>serve\<close> pass, then the \<open>Deno.serve\<close> pass.\<close>

definition normalizeEntryPoint :: "node \<Rightarrow> error + bool \<times> node" where
  "normalizeEntryPoint root =
     (case runPass serveCallback root False of
        Inl e \<Rightarrow> Inl e
      | Inr (flag, root1) \<Rightarrow> runPass denoServeCallback root1 flag)"

subsection \<open>Passes 7, 8 and 11\<close>

fun relativeImportRule :: "node \<Rightarrow> node" where
  "relativeImportRule (ImportDeclaration specs src) =
     (if startsWith src ''.'' \<and> endsWith src ''.ts''
      then ImportDeclaration specs (rxReplace tsExtRx ''.js'' src)
      else ImportDeclaration specs src)"
| "relativeImportRule n = n"

fun dynamicImportRule :: "node \<Rightarrow> node" where
  "dynamicImportRule (ImportExpression src) =
     (case src of
        StringLiteral val \<Rightarrow>
          if startsWith val ''npm:'' then ImportExpression (StringLiteral (npmBranch val))
          else ImportExpression src
      | _ \<Rightarrow> ImportExpression src)"
| "dynamicImportRule n = n"

fun handlerFunctionAsync :: "node \<Rightarrow> node" where
  "handlerFunctionAsync (FunctionDeclaration i params body isAsync) =
     (if identName i = Some ''handler'' \<and> \<not> isAsync \<and> hasAwait body
      then FunctionDeclaration i params body True
      else FunctionDeclaration i params body isAsync)"
| "handlerFunctionAsync n = n"

fun markAsync :: "node \<Rightarrow> node" where
  "markAsync (ArrowFunctionExpression params body isAsync) =
     ArrowFunctionExpression params body (isAsync \<or> hasAwait body)"
| "markAsync (FunctionExpression params body isAsync) =
     FunctionExpression params body (isAsync \<or> hasAwait body)"
| "markAsync n = n"

fun handlerVariableAsync :: "node \<Rightarrow> node" where
  "handlerVariableAsync (VariableDeclarator i init) =
     (if identName i = Some ''handler'' then VariableDeclarator i (markAsync init)
      else VariableDeclarator i init)"
| "handlerVariableAsync n = n"

subsection \<open>The whole transform\<close>

text \<open>The passes before the entry-point normalisation, when none of them throws.\<close>

definition prepare :: "node \<Rightarrow> node" where
  "prepare root = serveImportPass (envToObjectPass (envGetRewrite (everywhere importRule root)))"

definition finish :: "node \<Rightarrow> node" where
  "finish root = everywhere handlerVariableAsync (everywhere handlerFunctionAsync
     (everywhere dynamicImportRule (everywhere relativeImportRule root)))"

definition transform :: "node \<Rightarrow> error + node" where
  "transform root =
     (case envGetPass (everywhere importRule root) of
        Inl e \<Rightarrow> Inl e
      | Inr root2 \<Rightarrow>
          (case normalizeEntryPoint (serveImportPass (envToObjectPass root2)) of
             Inl e \<Rightarrow> Inl e
           | Inr (flag, root') \<Rightarrow> Inr (finish root')))"

text \<open>
  applyTransform (src/convert.ts).  The parser and the printer belong to the library;
  they are parameters here, and either may throw.  The grammar is chosen from the path.
\<close>

definition tsxPathRx :: rx where
  "tsxPathRx = seqs [lit ''.ts'', Opt (Chr CHR ''x''), Eol]"

definition applyTransform ::
  "(string \<Rightarrow> string \<Rightarrow> error + node) \<Rightarrow> (node \<Rightarrow> error + string) \<Rightarrow> string \<Rightarrow> string \<Rightarrow> string" where
  "applyTransform parse toSource filePath source =
     (let parser = (if rxMatch tsxPathRx filePath \<noteq> None then ''tsx'' else ''babel'')
      in case parse parser source of
           Inl e \<Rightarrow> source
         | Inr root \<Rightarrow>
             (case transform root of
                Inl e \<Rightarrow> source
              | Inr out \<Rightarrow> (case toSource out of Inl e \<Rightarrow> source | Inr text \<Rightarrow> text)))"

section \<open>Facts about the traversals\<close>

lemma kids_induct [case_names node]:
  assumes "\<And>n. (\<And>c. c \<in> set (kids n) \<Longrightarrow> P c) \<Longrightarrow> P n"
  shows "P n"
proof (induction n rule: measure_induct_rule [of size])
  case (less n)
  show ?case by (rule assms) (simp add: less kids_size)
qed

lemma anyNode_iff: "anyNode P n \<longleftrightarrow> P n \<or> (\<exists>c \<in> set (kids n). anyNode P c)"
  by (subst anyNode.simps) (simp add: list_ex_iff)

lemma anyNode_kid: "\<not> anyNode P n \<Longrightarrow> c \<in> set (kids n) \<Longrightarrow> \<not> anyNode P c"
  using anyNode_iff [of P n] by blast

lemma anyNode_self: "\<not> anyNode P n \<Longrightarrow> \<not> P n"
  using anyNode_iff [of P n] by blast

lemma mapSlot_id: "(\<And>c. c \<in> set (slotNodes s) \<Longrightarrow> f c = c) \<Longrightarrow> mapSlot f s = s"
  by (cases s) (auto simp: map_idI)

lemma descend_id: "(\<And>c. c \<in> set (kids n) \<Longrightarrow> f c = c) \<Longrightarrow> descend f n = n"
proof -
  assume a: "\<And>c. c \<in> set (kids n) \<Longrightarrow> f c = c"
  have "map (mapSlot f) (slots n) = slots n"
  proof (rule map_idI, rule mapSlot_id)
    fix s c assume "s \<in> set (slots n)" "c \<in> set (slotNodes s)"
    then have "c \<in> set (kids n)" by (auto simp: kids_def)
    then show "f c = c" by (rule a)
  qed
  then show ?thesis by (simp add: descend_def)
qed

lemma mapSlotL_id: "(\<And>c. c \<in> set (slotNodes s) \<Longrightarrow> f c = [c]) \<Longrightarrow> mapSlotL f s = s"
proof (cases s)
  case (One c)
  assume "\<And>c. c \<in> set (slotNodes s) \<Longrightarrow> f c = [c]"
  with One show ?thesis by simp
next
  case (Many cs)
  assume a: "\<And>c. c \<in> set (slotNodes s) \<Longrightarrow> f c = [c]"
  have "map f cs = map (\<lambda>c. [c]) cs"
    by (rule map_cong [OF refl]) (simp add: a Many)
  then have "concat (map f cs) = cs" by (simp only: concat_singletons)
  then show ?thesis using Many by simp
qed

lemma descendL_id: "(\<And>c. c \<in> set (kids n) \<Longrightarrow> f c = [c]) \<Longrightarrow> descendL f n = n"
proof -
  assume a: "\<And>c. c \<in> set (kids n) \<Longrightarrow> f c = [c]"
  have "map (mapSlotL f) (slots n) = slots n"
  proof (rule map_idI, rule mapSlotL_id)
    fix s c assume "s \<in> set (slots n)" "c \<in> set (slotNodes s)"
    then have "c \<in> set (kids n)" by (auto simp: kids_def)
    then show "f c = [c]" by (rule a)
  qed
  then show ?thesis by (simp add: descendL_def)
qed

lemma threadList_id:
  "(\<And>c. c \<in> set cs \<Longrightarrow> f c flag = Inr (flag, [c])) \<Longrightarrow> threadList f cs flag = Inr (flag, cs)"
  by (induction cs) auto

lemma threadSlot_id:
  "(\<And>c. c \<in> set (slotNodes s) \<Longrightarrow> f c flag = Inr (flag, [c])) \<Longrightarrow> threadSlot f s flag = Inr (flag, s)"
  by (cases s) (auto simp: threadList_id)

lemma threadSlots_id:
  "(\<And>c. c \<in> set (concat (map slotNodes ss)) \<Longrightarrow> f c flag = Inr (flag, [c]))
     \<Longrightarrow> threadSlots f ss flag = Inr (flag, ss)"
  by (induction ss) (auto simp: threadSlot_id)

lemma stepKids_id:
  "(\<And>c. c \<in> set (kids n) \<Longrightarrow> f c flag = Inr (flag, [c])) \<Longrightarrow> stepKids f n flag = Inr (flag, [n])"
  using threadSlots_id [of "slots n" f flag] by (simp add: stepKids_def kids_def)

subsection \<open>A pass leaves a tree alone when its rule matches nowhere\<close>

lemma everywhere_id: "\<not> anyNode (\<lambda>n. g n \<noteq> n) t \<Longrightarrow> everywhere g t = t"
proof (induction t rule: kids_induct)
  case (node n)
  have "descend (everywhere g) n = n"
    by (rule descend_id) (use node in \<open>auto dest: anyNode_kid\<close>)
  with anyNode_self [OF node.prems] show ?case by (simp add: everywhere.simps [of g n])
qed

definition isEnvCall :: "string \<Rightarrow> node \<Rightarrow> bool" where
  "isEnvCall meth n = (case n of CallExpression callee args \<Rightarrow> isDenoEnvCallee meth callee | _ \<Rightarrow> False)"

lemma envGetRewrite_id: "\<not> anyNode (isEnvCall ''get'') t \<Longrightarrow> envGetRewrite t = t"
proof (induction t rule: kids_induct)
  case (node n)
  have d: "descend envGetRewrite n = n"
    by (rule descend_id) (use node in \<open>auto dest: anyNode_kid\<close>)
  from anyNode_self [OF node.prems] d show ?case
    by (subst envGetRewrite.simps) (auto simp: isEnvCall_def split: node.splits)
qed

lemma envToObjectPass_id: "\<not> anyNode (isEnvCall ''toObject'') t \<Longrightarrow> envToObjectPass t = t"
proof (induction t rule: kids_induct)
  case (node n)
  have d: "descend envToObjectPass n = n"
    by (rule descend_id) (use node in \<open>auto dest: anyNode_kid\<close>)
  from anyNode_self [OF node.prems] d show ?case
    by (subst envToObjectPass.simps) (auto simp: isEnvCall_def split: node.splits)
qed

lemma replaceAll_id: "\<not> anyNode (\<lambda>n. rule n \<noteq> None) t \<Longrightarrow> replaceAll rule t = [t]"
proof (induction t rule: kids_induct)
  case (node n)
  have "descendL (replaceAll rule) n = n"
    by (rule descendL_id) (use node in \<open>auto dest: anyNode_kid\<close>)
  with anyNode_self [OF node.prems] show ?case by (simp add: replaceAll.simps [of rule n])
qed

lemma walk_id: "\<not> anyNode (\<lambda>n. callback n \<noteq> None) t \<Longrightarrow> walk callback t flag = Inr (flag, [t])"
proof (induction t rule: kids_induct)
  case (node n)
  have "stepKids (walk callback) n flag = Inr (flag, [n])"
    by (rule stepKids_id) (use node in \<open>auto dest: anyNode_kid\<close>)
  with anyNode_self [OF node.prems] show ?case
    by (cases flag) (simp_all add: walk.simps [of callback n])
qed

lemma walk_done: "walk callback t True = Inr (True, [t])"
  by (simp add: walk.simps)

lemma runPass_done: "runPass callback root True = Inr (True, root)"
  using stepKids_id [of root "walk callback" True] by (simp add: runPass_def walk_done)

lemma runPass_id:
  "\<forall>c \<in> set (kids root). \<not> anyNode (\<lambda>n. callback n \<noteq> None) c \<Longrightarrow> runPass callback root flag = Inr (flag, root)"
  using stepKids_id [of root "walk callback" flag] by (simp add: runPass_def walk_id)

subsection \<open>A specifier of the legacy registry whose package maps to \<open>null\<close>\<close>

lemma rxm_OptSkipI: "rxm n a s c k = None \<Longrightarrow> k s c = Some v \<Longrightarrow> rxm n (Opt a) s c k = Some v"
  by simp

lemma searchFrom_skip_gen:
  "(\<And>x xs. x \<in> set pre \<Longrightarrow> matchAt r n (x # xs) = None) \<Longrightarrow> searchFrom r n (pre @ s) = searchFrom r n s"
  by (induction pre) auto

text \<open>The optional version and the optional subpath after the package name.\<close>

definition versionPart :: "string \<Rightarrow> bool" where
  "versionPart vp = (vp = [] \<or> (\<exists>ver. vp = CHR ''@'' # ver \<and> ver \<noteq> [] \<and> CHR ''/'' \<notin> set ver))"

definition subpathPart :: "string \<Rightarrow> bool" where
  "subpathPart sp = (sp = [] \<or> (\<exists>sub. sp = CHR ''/'' # sub \<and> (\<forall>x \<in> set sub. \<not> isLineTerminator x)))"

lemma subpath_tail:
  assumes "subpathPart sp"
  shows "\<exists>c'. rxm n (Seq (Opt (Seq (Chr CHR ''/'') (Grp 2 (Star Dot)))) Eol) sp c (\<lambda>s' c. Some (c, s'))
               = Some (c', []) \<and> c' 1 = c 1"
proof (cases "sp = []")
  case True
  have "rxm n (Seq (Opt (Seq (Chr CHR ''/'') (Grp 2 (Star Dot)))) Eol) [] c (\<lambda>s' c. Some (c, s')) = Some (c, [])"
    by (rule rxm_SeqI, rule rxm_OptSkipI, simp, rule rxm_EolI, simp)
  with True show ?thesis by auto
next
  case False
  with assms obtain sub where sp: "sp = CHR ''/'' # sub" and sub: "\<forall>x \<in> set sub. \<not> isLineTerminator x"
    by (auto simp: subpathPart_def)
  let ?c' = "c(2 \<mapsto> take (length sub - length ([] :: string)) sub)"
  have "rxm n (Seq (Opt (Seq (Chr CHR ''/'') (Grp 2 (Star Dot)))) Eol) (CHR ''/'' # sub) c (\<lambda>s' c. Some (c, s'))
          = Some (?c', [])"
    apply (rule rxm_SeqI, rule rxm_OptI, rule rxm_SeqI, rule rxm_ChrI, rule rxm_GrpI, rule rxm_StarDotI)
    using sub apply simp
    apply (rule rxm_EolI)
    apply (rule refl)
    done
  moreover have "?c' 1 = c 1" by simp
  ultimately show ?thesis using sp by blast
qed

lemma version_subpath_tail:
  assumes "versionPart vp" "subpathPart sp"
  shows "\<exists>c'. rxm n (Seq (Opt (Seq (Chr CHR ''@'') (Plus (NotIn [C CHR ''/'']))))
                  (Seq (Opt (Seq (Chr CHR ''/'') (Grp 2 (Star Dot)))) Eol)) (vp @ sp) c (\<lambda>s' c. Some (c, s'))
               = Some (c', []) \<and> c' 1 = c 1"
proof -
  from subpath_tail [OF assms(2), of n c] obtain c'
    where t: "rxm n (Seq (Opt (Seq (Chr CHR ''/'') (Grp 2 (Star Dot)))) Eol) sp c (\<lambda>s' c. Some (c, s')) = Some (c', [])"
      and c': "c' 1 = c 1" by blast
  have sp: "sp = [] \<or> inCls [C CHR ''/''] (hd sp)"
    using assms(2) by (auto simp: subpathPart_def inCls_def)
  show ?thesis
  proof (cases "vp = []")
    case True
    have none: "rxm n (Seq (Chr CHR ''@'') (Plus (NotIn [C CHR ''/'']))) sp c
                  (\<lambda>s' c'. rxm n (Seq (Opt (Seq (Chr CHR ''/'') (Grp 2 (Star Dot)))) Eol) s' c' (\<lambda>s' c. Some (c, s')))
                = None"
      using assms(2) by (auto simp: subpathPart_def)
    have "rxm n (Seq (Opt (Seq (Chr CHR ''@'') (Plus (NotIn [C CHR ''/'']))))
                  (Seq (Opt (Seq (Chr CHR ''/'') (Grp 2 (Star Dot)))) Eol)) sp c (\<lambda>s' c. Some (c, s'))
          = Some (c', [])"
      by (rule rxm_SeqI, rule rxm_OptSkipI, rule none, rule t)
    with True c' show ?thesis by auto
  next
    case False
    with assms(1) obtain ver where vp: "vp = CHR ''@'' # ver" and ver: "ver \<noteq> []" "CHR ''/'' \<notin> set ver"
      by (auto simp: versionPart_def)
    have "rxm n (Seq (Opt (Seq (Chr CHR ''@'') (Plus (NotIn [C CHR ''/'']))))
                  (Seq (Opt (Seq (Chr CHR ''/'') (Grp 2 (Star Dot)))) Eol)) (CHR ''@'' # ver @ sp) c (\<lambda>s' c. Some (c, s'))
          = Some (c', [])"
      apply (rule rxm_SeqI, rule rxm_OptI, rule rxm_SeqI, rule rxm_ChrI, rule rxm_PlusNotInI)
      using ver sp apply (auto simp: inCls_def) [3]
      apply (rule t)
      done
    with vp c' show ?thesis by auto
  qed
qed

lemma denoLandRx_std:
  assumes "versionPart vp" "subpathPart sp"
  shows "\<exists>c. matchAt denoLandRx n (''deno.land/x/std'' @ vp @ sp) = Some (c, []) \<and> c 1 = Some ''std''"
proof -
  let ?s = "''std'' @ vp @ sp"
  let ?c1 = "(\<lambda>_. None)(1 \<mapsto> take (length ?s - length (vp @ sp)) ?s) :: caps"
  from version_subpath_tail [OF assms, of n ?c1] obtain c'
    where t: "rxm n (Seq (Opt (Seq (Chr CHR ''@'') (Plus (NotIn [C CHR ''/'']))))
                  (Seq (Opt (Seq (Chr CHR ''/'') (Grp 2 (Star Dot)))) Eol)) (vp @ sp) ?c1 (\<lambda>s' c. Some (c, s'))
               = Some (c', [])"
      and c': "c' 1 = ?c1 1" by blast
  have hd: "vp @ sp = [] \<or> inCls [C CHR ''@'', C CHR ''/''] (hd (vp @ sp))"
    using assms by (auto simp: versionPart_def subpathPart_def inCls_def)
  have "rxm n denoLandRx (''deno.land/x/'' @ ?s) (\<lambda>_. None) (\<lambda>s' c. Some (c, s')) = Some (c', [])"
    unfolding denoLandRx_def seqs.simps
    apply (rule rxm_SeqI, rule rxm_litI, simp)
    apply (rule rxm_SeqI, rule rxm_GrpI, rule rxm_PlusNotInI)
    using hd apply (simp_all add: inCls_def) [3]
    apply (rule t)
    done
  then have "matchAt denoLandRx n (''deno.land/x/std'' @ vp @ sp) = Some (c', [])"
    by (simp add: matchAt_def)
  moreover have "c' 1 = Some ''std''" using c' by simp
  ultimately show ?thesis by blast
qed

lemma denoLandRx_first_char: "x \<noteq> CHR ''d'' \<Longrightarrow> matchAt denoLandRx n (x # xs) = None"
  by (simp add: matchAt_def denoLandRx_def lit_def)

lemma denoLandBranch_std:
  assumes "CHR ''d'' \<notin> set pre" "versionPart vp" "subpathPart sp"
  shows "denoLandBranch (pre @ ''deno.land/x/std'' @ vp @ sp) = pre @ ''deno.land/x/std'' @ vp @ sp"
proof -
  let ?src = "pre @ ''deno.land/x/std'' @ vp @ sp"
  from denoLandRx_std [OF assms(2,3), of "length ?src"] obtain c
    where m: "matchAt denoLandRx (length ?src) (''deno.land/x/std'' @ vp @ sp) = Some (c, [])"
      and c: "c 1 = Some ''std''" by blast
  have "searchFrom denoLandRx (length ?src) ?src
          = searchFrom denoLandRx (length ?src) (''deno.land/x/std'' @ vp @ sp)"
    by (rule searchFrom_skip_gen) (use assms(1) in \<open>auto intro: denoLandRx_first_char\<close>)
  also have "\<dots> = Some (''deno.land/x/std'' @ vp @ sp, c, [])"
    using m by simp
  finally have "rxMatch denoLandRx ?src = Some c" by (simp add: rxMatch_def)
  moreover have "capture c 1 = ''std''" using c by (simp add: capture_def)
  ultimately show ?thesis
    by (simp add: denoLandBranch_def Let_def applyMapping_def denoLandMapping_def)
qed

lemma includesStr_mid: "includesStr (pre @ sub @ post) sub"
  by (auto simp: includesStr_iff)

lemma rewriteImportSource_std:
  assumes "CHR ''d'' \<notin> set pre" "versionPart vp" "subpathPart sp"
    and "\<not> startsWith pre ''npm:''" "\<not> startsWith pre ''jsr:''"
  shows "rewriteImportSource (pre @ ''deno.land/x/std'' @ vp @ sp) = pre @ ''deno.land/x/std'' @ vp @ sp"
proof -
  let ?src = "pre @ ''deno.land/x/std'' @ vp @ sp"
  have no: "\<not> startsWith ?src p" if "\<not> startsWith pre p" "CHR ''d'' \<notin> set p" for p
  proof
    assume "startsWith ?src p"
    then obtain t where "pre @ (CHR ''d'' # ''eno.land/x/std'' @ vp @ sp) = p @ t"
      by (auto simp: startsWith_iff)
    from peel [OF this refl that(2)] have "startsWith pre p" by (auto simp: startsWith_iff)
    with that(1) show False ..
  qed
  have "includesStr ?src ''deno.land''"
    using includesStr_mid [of pre "''deno.land''" "''/x/std'' @ vp @ sp"] by simp
  with no [OF assms(4)] no [OF assms(5)] denoLandBranch_std [OF assms(1-3)]
  show ?thesis by (simp add: rewriteImportSource_def)
qed

lemma transform_parts:
  "transform root = Inr out \<longleftrightarrow>
     \<not> anyNode spreadKey (everywhere importRule root)
     \<and> (\<exists>flag root'. normalizeEntryPoint (prepare root) = Inr (flag, root') \<and> out = finish root')"
  by (auto simp: transform_def envGetPass_def prepare_def split: sum.splits prod.splits)

lemmas ast_eval = everywhere.simps envGetRewrite.simps envToObjectPass.simps replaceAll.simps walk.simps
  anyNode.simps countNodes.simps kids_def descendL_def stepKids_def runPass_def normalizeEntryPoint_def
  prepare_def finish_def transform_def serveImportPass_def envGetReplacement_def processEnv_def
  handlerDeclaration_def hasAwait_def denoServeHandlerArg_def serveImportSources_def
  envGetPass_def spreadKey_def

section \<open>Claims about the transform\<close>

text \<open>
  Claim C7 says that an import from \<open>deno.land/x/\<close> whose package maps to
  \<open>null\<close> (\<open>std\<close>) is dropped from the output.  The transform leaves
  \<open>import { join } from "https://deno.land/x/std/path/mod.ts"\<close> exactly as it is.
\<close>

theorem std_import_kept_counterexample:
  "transform (Program [ImportDeclaration [ImportSpecifier ''join'' ''join'']
                         ''https://deno.land/x/std/path/mod.ts''])
   = Inr (Program [ImportDeclaration [ImportSpecifier ''join'' ''join'']
                         ''https://deno.land/x/std/path/mod.ts''])"
  by (simp add: ast_eval rx_eval spec_eval)

text \<open>
  Claim C7, amended.  For an import whose specifier is \<open>deno.land/x/std\<close>, with or without
  a version and a subpath and behind any prefix such as \<open>https://\<close>, the specifier pass
  leaves the import declaration in place with its specifier and its specifiers list as
  they were: a package mapped to \<open>null\<close> is not rewritten and not dropped.
\<close>

theorem std_import_unchanged:
  assumes "CHR ''d'' \<notin> set pre" "\<not> startsWith pre ''npm:''" "\<not> startsWith pre ''jsr:''"
    and "versionPart vp" "subpathPart sp"
  shows "importRule (ImportDeclaration specs (pre @ ''deno.land/x/std'' @ vp @ sp))
         = ImportDeclaration specs (pre @ ''deno.land/x/std'' @ vp @ sp)"
  using rewriteImportSource_std [OF assms(1,4,5,2,3)] by simp

theorem std_import_unchanged_witness:
  "importRule (ImportDeclaration [ImportSpecifier ''join'' ''join''] ''https://deno.land/x/std@0.200.0/path/mod.ts'')
   = ImportDeclaration [ImportSpecifier ''join'' ''join''] ''https://deno.land/x/std@0.200.0/path/mod.ts''"
  using std_import_unchanged [of "''https://''" "''@0.200.0''" "''/path/mod.ts''" "[ImportSpecifier ''join'' ''join'']"]
  by (simp add: versionPart_def subpathPart_def isLineTerminator_def)

subsection \<open>Trees in which no rule matches\<close>

definition ruleApplies :: "node \<Rightarrow> bool" where
  "ruleApplies n =
     (importRule n \<noteq> n \<or> isEnvCall ''get'' n \<or> isEnvCall ''toObject'' n
      \<or> serveImportRule n \<noteq> None \<or> serveCallback n \<noteq> None \<or> denoServeCallback n \<noteq> None
      \<or> relativeImportRule n \<noteq> n \<or> dynamicImportRule n \<noteq> n
      \<or> handlerFunctionAsync n \<noteq> n \<or> handlerVariableAsync n \<noteq> n)"

definition settled :: "node \<Rightarrow> bool" where
  "settled t = (\<not> anyNode ruleApplies t)"

definition parserFor :: "string \<Rightarrow> string" where
  "parserFor filePath = (if rxMatch tsxPathRx filePath \<noteq> None then ''tsx'' else ''babel'')"

lemma anyNode_mono: "(\<And>n. P n \<Longrightarrow> Q n) \<Longrightarrow> anyNode P t \<Longrightarrow> anyNode Q t"
proof (induction t rule: kids_induct)
  case (node n)
  from node.prems(2) consider "P n" | c where "c \<in> set (kids n)" "anyNode P c"
    using anyNode_iff [of P n] by blast
  then show ?case
  proof cases
    case 1
    with node.prems(1) show ?thesis using anyNode_iff [of Q n] by blast
  next
    case 2
    with node.IH [OF 2(1) node.prems(1) 2(2)] show ?thesis using anyNode_iff [of Q n] by blast
  qed
qed

lemma settled_no:
  assumes "settled t" "\<And>n. P n \<Longrightarrow> ruleApplies n"
  shows "\<not> anyNode P t"
  using assms anyNode_mono [of P ruleApplies t] by (auto simp: settled_def)




text \<open>A parser and a printer that know two programs, to run the pipeline on.\<close>

definition toyParse :: "string \<Rightarrow> string \<Rightarrow> error + node" where
  "toyParse grammar text =
     (if text = ''serve(h);''
      then Inr (Program [ExpressionStatement (CallExpression (Identifier ''serve'') [Identifier ''h''])])
      else if text = ''export default h;''
      then Inr (Program [ExportDefaultDeclaration (Identifier ''h'')])
      else if text = ''if (x) serve(() => 1);''
      then Inr (Program [Other ''IfStatement''
             [Identifier ''x'',
              ExpressionStatement (CallExpression (Identifier ''serve'')
                [ArrowFunctionExpression [] (Other ''NumericLiteral'' [] []) False])] []])
      else Inl ParseError)"

definition toyPrint :: "node \<Rightarrow> error + string" where
  "toyPrint t =
     (if t = Program [ExportDefaultDeclaration (Identifier ''h'')] then Inr ''export default h;''
      else Inl PrintError)"


text \<open>
  Claim C5.  For every file path and every source text applyTransform returns a string
  (it is total: nothing is thrown to the caller), and it returns the source text it was
  given whenever the parser fails, a rewrite rule fails, or the printer fails.
\<close>

theorem applyTransform_fail_open:
  "(parse (parserFor filePath) source = Inl e \<longrightarrow> applyTransform parse toSource filePath source = source)
   \<and> (parse (parserFor filePath) source = Inr root \<and> transform root = Inl e
        \<longrightarrow> applyTransform parse toSource filePath source = source)
   \<and> (parse (parserFor filePath) source = Inr root \<and> transform root = Inr out \<and> toSource out = Inl e
        \<longrightarrow> applyTransform parse toSource filePath source = source)"
  by (simp add: applyTransform_def parserFor_def)

theorem applyTransform_fail_open_witness:
  "toyParse (parserFor ''a.js'') ''serve('' = Inl ParseError
   \<and> applyTransform toyParse toyPrint ''a.js'' ''serve('' = ''serve(''
   \<and> transform (Program [Other ''IfStatement''
             [Identifier ''x'',
              ExpressionStatement (CallExpression (Identifier ''serve'')
                [ArrowFunctionExpression [] (Other ''NumericLiteral'' [] []) False])] []])
       = Inl CouldNotReplacePath
   \<and> applyTransform toyParse toyPrint ''a.js'' ''if (x) serve(() => 1);'' = ''if (x) serve(() => 1);''
   \<and> toyPrint (Program [ExportDefaultDeclaration (Identifier ''h1'')]) = Inl PrintError"
proof -
  let ?root = "Program [Other ''IfStatement''
             [Identifier ''x'',
              ExpressionStatement (CallExpression (Identifier ''serve'')
                [ArrowFunctionExpression [] (Other ''NumericLiteral'' [] []) False])] []]"
  have p1: "toyParse (parserFor ''a.js'') ''serve('' = Inl ParseError" by (simp add: toyParse_def)
  have p2: "toyParse (parserFor ''a.js'') ''if (x) serve(() => 1);'' = Inr ?root" by (simp add: toyParse_def)
  have tr: "transform ?root = Inl CouldNotReplacePath" by (simp add: ast_eval)
  have pr: "toyPrint (Program [ExportDefaultDeclaration (Identifier ''h1'')]) = Inl PrintError"
    by (simp add: toyPrint_def)
  from applyTransform_fail_open [of toyParse "''a.js''" "''serve(''" ParseError toyPrint] p1
  have a: "applyTransform toyParse toyPrint ''a.js'' ''serve('' = ''serve(''" by simp
  from applyTransform_fail_open [of toyParse "''a.js''" "''if (x) serve(() => 1);''" CouldNotReplacePath
      toyPrint ?root] p2 tr
  have b: "applyTransform toyParse toyPrint ''a.js'' ''if (x) serve(() => 1);'' = ''if (x) serve(() => 1);''"
    by simp
  from p1 a tr b pr show ?thesis by simp
qed


subsection \<open>Counting nodes through the traversals\<close>

lemma kids_simps [simp]:
  "kids (Identifier x) = []"
  "kids (StringLiteral str) = []"
  "kids NoNode = []"
  "kids (MemberExpression ob pr computed) = [ob, pr]"
  "kids (CallExpression callee args) = callee # args"
  "kids (LogicalExpression oper l r) = [l, r]"
  "kids (AwaitExpression arg) = [arg]"
  "kids (ImportExpression e) = [e]"
  "kids (ArrowFunctionExpression ps body isAsync) = ps @ [body]"
  "kids (FunctionExpression ps body isAsync) = ps @ [body]"
  "kids (ObjectExpression props) = props"
  "kids (ObjectProperty k v) = [k, v]"
  "kids (ExpressionStatement st) = [st]"
  "kids (ExportDefaultDeclaration d) = [d]"
  "kids (FunctionDeclaration i ps body isAsync) = i # ps @ [body]"
  "kids (ImportDeclaration specs src) = specs"
  "kids (ImportSpecifier imported loc) = []"
  "kids (VariableDeclarator vid init) = [vid, init]"
  "kids (ReturnStatement arg) = [arg]"
  "kids (BlockStatement stmts) = stmts"
  "kids (Program stmts) = stmts"
  "kids (Other tag singles arrays) = singles @ arrays"
  by (simp_all add: kids_def comp_def)

lemma kids_descend: "kids (descend f n) = map f (kids n)"
  by (cases n) simp_all

lemma isExportDefault_descend [simp]: "isExportDefault (descend f n) = isExportDefault n"
  by (cases n) simp_all

lemma countNodes_descend:
  "(\<And>c. c \<in> set (kids n) \<Longrightarrow> countNodes isExportDefault (f c) = countNodes isExportDefault c)
   \<Longrightarrow> countNodes isExportDefault (descend f n) = countNodes isExportDefault n"
proof -
  assume a: "\<And>c. c \<in> set (kids n) \<Longrightarrow> countNodes isExportDefault (f c) = countNodes isExportDefault c"
  have "map (countNodes isExportDefault) (map f (kids n)) = map (countNodes isExportDefault) (kids n)"
    by (simp add: a)
  then show ?thesis
    by (simp add: countNodes.simps [of _ "descend f n"] countNodes.simps [of _ n] kids_descend
        del: map_map)
qed

lemma everywhere_count:
  assumes "\<And>m. countNodes isExportDefault (g m) = countNodes isExportDefault m"
  shows "countNodes isExportDefault (everywhere g n) = countNodes isExportDefault n"
proof (induction n rule: kids_induct)
  case (node n)
  have "countNodes isExportDefault (descend (everywhere g) n) = countNodes isExportDefault n"
    by (rule countNodes_descend) (rule node.IH)
  then show ?case by (simp add: everywhere.simps [of g n] assms)
qed

lemma count_same_kids:
  "isExportDefault a = isExportDefault b \<Longrightarrow> kids a = kids b
     \<Longrightarrow> countNodes isExportDefault a = countNodes isExportDefault b"
  by (simp add: countNodes.simps [of _ a] countNodes.simps [of _ b])

lemma markAsync_kids: "kids (markAsync m) = kids m" "isExportDefault (markAsync m) = isExportDefault m"
  by (cases m; simp)+

lemma local_rules_count:
  "countNodes isExportDefault (relativeImportRule m) = countNodes isExportDefault m"
  "countNodes isExportDefault (handlerFunctionAsync m) = countNodes isExportDefault m"
proof -
  show "countNodes isExportDefault (relativeImportRule m) = countNodes isExportDefault m"
    by (rule count_same_kids; cases m; simp)
  show "countNodes isExportDefault (handlerFunctionAsync m) = countNodes isExportDefault m"
    by (rule count_same_kids; cases m; simp)
qed

lemma markAsync_count: "countNodes isExportDefault (markAsync m) = countNodes isExportDefault m"
  by (rule count_same_kids) (simp_all add: markAsync_kids)

lemma handlerVariableAsync_count:
  "countNodes isExportDefault (handlerVariableAsync m) = countNodes isExportDefault m"
  by (cases m) (simp_all add: countNodes.simps [of _ "VariableDeclarator a b" for a b] markAsync_count)

lemma dynamicImportRule_count:
  "countNodes isExportDefault (dynamicImportRule m) = countNodes isExportDefault m"
proof (cases m)
  case (ImportExpression src)
  then show ?thesis
    by (cases src)
       (simp_all add: countNodes.simps [of _ "ImportExpression a" for a]
          countNodes.simps [of _ "StringLiteral a" for a])
qed simp_all

lemma finish_count: "countNodes isExportDefault (finish t) = countNodes isExportDefault t"
  by (simp add: finish_def everywhere_count local_rules_count handlerVariableAsync_count
      dynamicImportRule_count)

fun isOne :: "slot \<Rightarrow> bool" where
  "isOne (One c) = True"
| "isOne (Many cs) = False"

definition exportCount :: "node list \<Rightarrow> nat" where
  "exportCount ns = sum_list (map (countNodes isExportDefault) ns)"

definition flipped :: "bool \<Rightarrow> bool \<Rightarrow> nat" where
  "flipped before after = (if after \<and> \<not> before then 1 else 0)"

lemma exportCount_simps [simp]:
  "exportCount [] = 0" "exportCount (n # ns) = countNodes isExportDefault n + exportCount ns"
  "exportCount (xs @ ys) = exportCount xs + exportCount ys"
  by (simp_all add: exportCount_def)

lemma countNodes_kids:
  "countNodes isExportDefault n = (if isExportDefault n then 1 else 0) + exportCount (kids n)"
  by (simp add: countNodes.simps [of _ n] exportCount_def)

lemma exportCount_concat: "exportCount (concat xss) = sum_list (map exportCount xss)"
  by (induction xss) auto

lemma shape_simps:
  "(map isOne sl = []) = (sl = [])"
  "(map isOne sl = True # bs) = (\<exists>c sl2. sl = One c # sl2 \<and> map isOne sl2 = bs)"
  "(map isOne sl = False # bs) = (\<exists>cs sl2. sl = Many cs # sl2 \<and> map isOne sl2 = bs)"
proof -
  show "(map isOne sl = []) = (sl = [])" by simp
  show "(map isOne sl = True # bs) = (\<exists>c sl2. sl = One c # sl2 \<and> map isOne sl2 = bs)"
  proof (cases sl)
    case (Cons s sl2)
    then show ?thesis by (cases s) auto
  qed simp
  show "(map isOne sl = False # bs) = (\<exists>cs sl2. sl = Many cs # sl2 \<and> map isOne sl2 = bs)"
  proof (cases sl)
    case (Cons s sl2)
    then show ?thesis by (cases s) auto
  qed simp
qed

lemma other_shape:
  "map isOne sl = map isOne (map One xs @ [Many ys])
     \<Longrightarrow> \<exists>xs' ys'. sl = map One xs' @ [Many ys'] \<and> length xs' = length xs"
proof (induction xs arbitrary: sl)
  case Nil
  then show ?case by (auto simp: shape_simps)
next
  case (Cons x xs)
  from Cons.prems obtain c sl2 where sl: "sl = One c # sl2"
    and "map isOne sl2 = map isOne (map One xs @ [Many ys])"
    by (auto simp: shape_simps)
  from Cons.IH [OF this(2)] obtain xs' ys' where "sl2 = map One xs' @ [Many ys']" "length xs' = length xs"
    by blast
  with sl have "sl = map One (c # xs') @ [Many ys'] \<and> length (c # xs') = length (x # xs)" by simp
  then show ?case by blast
qed

lemma build_kids:
  assumes "map isOne sl = map isOne (slots n)"
  shows "kids (build n sl) = concat (map slotNodes sl) \<and> isExportDefault (build n sl) = isExportDefault n"
proof (cases n)
  case (Other tag singles arrays)
  with assms obtain xs' ys' where sl: "sl = map One xs' @ [Many ys']" and len: "length xs' = length singles"
    using other_shape [of sl singles arrays] by auto
  have "concat (map slotNodes (take (length singles) (map One xs' @ [Many ys']))) = xs'"
    using take_singles [of xs' "[Many ys']"] len by simp
  moreover have "manyAt (map One xs' @ [Many ys']) (length singles) = ys'"
    using manyAt_singles [of xs' ys'] len by simp
  ultimately show ?thesis using Other sl by simp
qed (use assms in \<open>auto simp: shape_simps\<close>)

lemma build_count:
  assumes "map isOne sl = map isOne (slots n)"
  shows "countNodes isExportDefault (build n sl)
         = (if isExportDefault n then 1 else 0) + exportCount (concat (map slotNodes sl))"
  using build_kids [OF assms] by (simp add: countNodes_kids [of "build n sl"])

lemma flipped_chain:
  "(a \<longrightarrow> b) \<Longrightarrow> (b \<longrightarrow> c) \<Longrightarrow> flipped a b + flipped b c = flipped a c"
  by (cases a; cases b; cases c; simp add: flipped_def)

text \<open>What the traversal of one child promises, lifted to lists of children and to slots.\<close>

definition counted :: "(node \<Rightarrow> bool \<Rightarrow> walked) \<Rightarrow> (node \<Rightarrow> bool) \<Rightarrow> node \<Rightarrow> bool" where
  "counted f T c = (\<forall>flag flag' r. f c flag = Inr (flag', r) \<longrightarrow>
      exportCount r = countNodes isExportDefault c + flipped flag flag' \<and> flag' = (flag \<or> T c))"

lemma threadList_counted:
  "\<forall>c \<in> set cs. counted f T c \<Longrightarrow> threadList f cs flag = Inr (flag', cs')
     \<Longrightarrow> exportCount cs' = exportCount cs + flipped flag flag' \<and> flag' = (flag \<or> (\<exists>c \<in> set cs. T c))"
proof (induction cs arbitrary: flag cs')
  case Nil
  then show ?case by (auto simp: flipped_def)
next
  case (Cons c cs)
  from Cons.prems(2) obtain f1 r rest where 1: "f c flag = Inr (f1, r)"
    and 2: "threadList f cs f1 = Inr (flag', rest)" and cs': "cs' = r @ rest"
    by (auto split: sum.splits prod.splits)
  from Cons.prems(1) 1 have a: "exportCount r = countNodes isExportDefault c + flipped flag f1"
    and b: "f1 = (flag \<or> T c)" by (auto simp: counted_def)
  from Cons.IH [OF _ 2] Cons.prems(1)
  have c: "exportCount rest = exportCount cs + flipped f1 flag'"
    and d: "flag' = (f1 \<or> (\<exists>c \<in> set cs. T c))" by auto
  have e: "flipped flag f1 + flipped f1 flag' = flipped flag flag'"
    by (rule flipped_chain) (use b d in auto)
  have "exportCount cs' = exportCount (c # cs) + flipped flag flag'"
    using a c e by (simp add: cs')
  moreover have "flag' = (flag \<or> (\<exists>x \<in> set (c # cs). T x))"
    using b d by auto
  ultimately show ?case by blast
qed

lemma threadSlot_counted:
  "\<forall>c \<in> set (slotNodes s). counted f T c \<Longrightarrow> threadSlot f s flag = Inr (flag', s')
     \<Longrightarrow> exportCount (slotNodes s') = exportCount (slotNodes s) + flipped flag flag'
         \<and> flag' = (flag \<or> (\<exists>c \<in> set (slotNodes s). T c)) \<and> isOne s' = isOne s"
proof (cases s)
  case (One c)
  assume a: "\<forall>c \<in> set (slotNodes s). counted f T c" and b: "threadSlot f s flag = Inr (flag', s')"
  from b One obtain r where 1: "f c flag = Inr (flag', r)"
    and s': "r = [] \<and> s' = One NoNode \<or> (\<exists>c'. r = [c'] \<and> s' = One c')"
    by (auto split: sum.splits prod.splits list.splits)
  from a One 1 have "exportCount r = countNodes isExportDefault c + flipped flag flag'"
    and "flag' = (flag \<or> T c)" by (auto simp: counted_def)
  with s' One show ?thesis by (auto simp: countNodes_kids [of NoNode])
next
  case (Many cs)
  assume a: "\<forall>c \<in> set (slotNodes s). counted f T c" and b: "threadSlot f s flag = Inr (flag', s')"
  from b Many obtain cs' where 1: "threadList f cs flag = Inr (flag', cs')" and s': "s' = Many cs'"
    by (auto split: sum.splits prod.splits)
  from threadList_counted [OF _ 1, of T] a Many s' show ?thesis by auto
qed

lemma threadSlots_counted:
  "\<forall>c \<in> set (concat (map slotNodes ss)). counted f T c \<Longrightarrow> threadSlots f ss flag = Inr (flag', ss')
     \<Longrightarrow> exportCount (concat (map slotNodes ss')) = exportCount (concat (map slotNodes ss)) + flipped flag flag'
         \<and> flag' = (flag \<or> (\<exists>c \<in> set (concat (map slotNodes ss)). T c))
         \<and> map isOne ss' = map isOne ss"
proof (induction ss arbitrary: flag ss')
  case Nil
  then show ?case by (auto simp: flipped_def)
next
  case (Cons s ss)
  from Cons.prems(2) obtain f1 s1 rest where 1: "threadSlot f s flag = Inr (f1, s1)"
    and 2: "threadSlots f ss f1 = Inr (flag', rest)" and ss': "ss' = s1 # rest"
    by (auto split: sum.splits prod.splits)
  from threadSlot_counted [OF _ 1, of T] Cons.prems(1)
  have a: "exportCount (slotNodes s1) = exportCount (slotNodes s) + flipped flag f1"
    and b: "f1 = (flag \<or> (\<exists>c \<in> set (slotNodes s). T c))" and k: "isOne s1 = isOne s" by auto
  from Cons.IH [OF _ 2] Cons.prems(1)
  have c: "exportCount (concat (map slotNodes rest)) = exportCount (concat (map slotNodes ss)) + flipped f1 flag'"
    and d: "flag' = (f1 \<or> (\<exists>c \<in> set (concat (map slotNodes ss)). T c))"
    and k2: "map isOne rest = map isOne ss" by auto
  have e: "flipped flag f1 + flipped f1 flag' = flipped flag flag'"
    by (rule flipped_chain) (use b d in auto)
  have "exportCount (concat (map slotNodes ss')) = exportCount (concat (map slotNodes (s # ss))) + flipped flag flag'"
    using a c e by (simp add: ss')
  moreover have "flag' = (flag \<or> (\<exists>x \<in> set (concat (map slotNodes (s # ss))). T x))"
    using b d by auto
  moreover have "map isOne ss' = map isOne (s # ss)"
    using k k2 by (simp add: ss')
  ultimately show ?case by blast
qed

lemma stepKids_counted:
  assumes "\<forall>c \<in> set (kids n). counted f T c" "stepKids f n flag = Inr (flag', r)"
  shows "\<exists>n'. r = [n'] \<and> countNodes isExportDefault n' = countNodes isExportDefault n + flipped flag flag'
           \<and> flag' = (flag \<or> (\<exists>c \<in> set (kids n). T c))"
proof -
  from assms(2) obtain sl where 1: "threadSlots f (slots n) flag = Inr (flag', sl)" and r: "r = [build n sl]"
    by (auto simp: stepKids_def split: sum.splits prod.splits)
  from threadSlots_counted [OF _ 1, of T] assms(1)
  have a: "exportCount (concat (map slotNodes sl)) = exportCount (kids n) + flipped flag flag'"
    and b: "flag' = (flag \<or> (\<exists>c \<in> set (kids n). T c))"
    and k: "map isOne sl = map isOne (slots n)" by (auto simp: kids_def)
  from build_count [OF k] a have "countNodes isExportDefault (build n sl)
      = countNodes isExportDefault n + flipped flag flag'"
    by (simp add: countNodes_kids [of n])
  with r b show ?thesis by blast
qed

fun isExpressionStatement :: "node \<Rightarrow> bool" where
  "isExpressionStatement (ExpressionStatement e) = True"
| "isExpressionStatement n = False"

text \<open>A registration call: an expression statement that one of the two callbacks rewrites.\<close>

definition registrationCall :: "node \<Rightarrow> bool" where
  "registrationCall n = (serveCallback n \<noteq> None \<or> denoServeCallback n \<noteq> None)"

text \<open>No default export stands inside an expression statement (as in every parsed module).\<close>

definition exportsOutsideStatements :: "node \<Rightarrow> bool" where
  "exportsOutsideStatements t =
     (\<not> anyNode (\<lambda>s. isExpressionStatement s \<and> countNodes isExportDefault s > 0) t)"

lemma exportCount_member: "exportCount ns = 0 \<Longrightarrow> x \<in> set ns \<Longrightarrow> countNodes isExportDefault x = 0"
  by (induction ns) auto

lemma count_kid_zero:
  "countNodes isExportDefault n = 0 \<Longrightarrow> c \<in> set (kids n) \<Longrightarrow> countNodes isExportDefault c = 0"
  using exportCount_member [of "kids n" c] by (simp add: countNodes_kids [of n] split: if_splits)

lemma handlerDeclaration_count:
  "exportCount params = 0 \<Longrightarrow> countNodes isExportDefault body = 0
     \<Longrightarrow> exportCount (handlerDeclaration params body declaredAsync) = 1"
  by (simp add: handlerDeclaration_def Let_def
      countNodes_kids [of "FunctionDeclaration a b c d" for a b c d]
      countNodes_kids [of "ExportDefaultDeclaration a" for a]
      countNodes_kids [of "Identifier a" for a]
      countNodes_kids [of "BlockStatement a" for a]
      countNodes_kids [of "ReturnStatement a" for a])

lemma emitHandler_count:
  assumes "emitHandler h = Some repl" "countNodes isExportDefault h = 0"
  shows "exportCount repl = 1"
proof (cases h)
  case (ArrowFunctionExpression params body isAsync)
  with assms(2) have "exportCount params = 0" "countNodes isExportDefault body = 0"
    by (simp_all add: countNodes_kids [of "ArrowFunctionExpression a b c" for a b c])
  with assms(1) ArrowFunctionExpression show ?thesis by (auto simp: handlerDeclaration_count)
next
  case (FunctionExpression params body isAsync)
  with assms(2) have "exportCount params = 0" "countNodes isExportDefault body = 0"
    by (simp_all add: countNodes_kids [of "FunctionExpression a b c" for a b c])
  with assms(1) FunctionExpression show ?thesis by (auto simp: handlerDeclaration_count)
next
  case (Identifier name)
  with assms(1) show ?thesis
    by (auto simp: countNodes_kids [of "ExportDefaultDeclaration a" for a]
        countNodes_kids [of "Identifier a" for a])
qed (use assms(1) in simp_all)

lemma serveCallback_count:
  assumes "serveCallback n = Some repl"
  shows "isExpressionStatement n \<and> (countNodes isExportDefault n = 0 \<longrightarrow> exportCount repl = 1)"
proof -
  from assms obtain callee arg rest where n: "n = ExpressionStatement (CallExpression callee (arg # rest))"
    and h: "emitHandler arg = Some repl"
    by (cases n) (auto split: node.splits if_splits list.splits)
  have "exportCount repl = 1" if "countNodes isExportDefault n = 0"
  proof -
    from that n have "countNodes isExportDefault (CallExpression callee (arg # rest)) = 0"
      by (auto dest: count_kid_zero)
    then have "countNodes isExportDefault arg = 0" by (auto dest: count_kid_zero)
    with h show ?thesis by (rule emitHandler_count)
  qed
  with n show ?thesis by simp
qed

lemma denoServeHandlerArg_count:
  assumes "denoServeHandlerArg args = Some h" "exportCount args = 0"
  shows "countNodes isExportDefault h = 0"
proof -
  from assms(1) obtain a
    where sel: "(if length args > 1 then Some (args ! 1)
                 else (case args of [] \<Rightarrow> None | x # _ \<Rightarrow> Some x)) = Some a"
      and pick: "(case a of
                    ObjectExpression props \<Rightarrow>
                      (case find isHandlerProperty props of Some p \<Rightarrow> Some (propertyValue p) | None \<Rightarrow> Some a)
                  | _ \<Rightarrow> Some a) = Some h"
    by (auto simp: denoServeHandlerArg_def split: option.splits)
  from sel have a: "a \<in> set args"
    by (auto split: if_splits list.splits)
  from pick have h: "h = a \<or> (\<exists>props p. a = ObjectExpression props \<and> find isHandlerProperty props = Some p
              \<and> h = propertyValue p)"
    by (cases a) (auto split: option.splits)
  from exportCount_member [OF assms(2) a] have a0: "countNodes isExportDefault a = 0" .
  from h show ?thesis
  proof
    assume "h = a"
    with a0 show ?thesis by simp
  next
    assume "\<exists>props p. a = ObjectExpression props \<and> find isHandlerProperty props = Some p \<and> h = propertyValue p"
    then obtain props p where p: "a = ObjectExpression props" "find isHandlerProperty props = Some p"
      "h = propertyValue p" by blast
    from p(2) have pin: "p \<in> set props" and hp: "isHandlerProperty p"
      by (auto simp: find_Some_iff)
    from a0 p(1) pin have p0: "countNodes isExportDefault p = 0" by (auto dest: count_kid_zero)
    from hp obtain k v where "p = ObjectProperty k v" by (cases p) auto
    with p0 p(3) show ?thesis by (auto dest: count_kid_zero)
  qed
qed

lemma denoServeCallback_count:
  assumes "denoServeCallback n = Some repl"
  shows "isExpressionStatement n \<and> (countNodes isExportDefault n = 0 \<longrightarrow> exportCount repl = 1)"
proof -
  from assms obtain callee args h where n: "n = ExpressionStatement (CallExpression callee args)"
    and ha: "denoServeHandlerArg args = Some h" and h: "emitHandler h = Some repl"
    by (cases n) (auto split: node.splits if_splits option.splits)
  have "exportCount repl = 1" if "countNodes isExportDefault n = 0"
  proof -
    from that n have "countNodes isExportDefault (CallExpression callee args) = 0"
      by (auto dest: count_kid_zero)
    then have "exportCount args = 0"
      by (simp add: countNodes_kids [of "CallExpression a b" for a b])
    with ha have "countNodes isExportDefault h = 0" by (rule denoServeHandlerArg_count)
    with h show ?thesis by (rule emitHandler_count)
  qed
  with n show ?thesis by simp
qed

lemma walk_counted:
  assumes cb: "\<And>n repl. callback n = Some repl
                \<Longrightarrow> isExpressionStatement n \<and> (countNodes isExportDefault n = 0 \<longrightarrow> exportCount repl = 1)"
  shows "exportsOutsideStatements n \<Longrightarrow> counted (walk callback) (anyNode (\<lambda>m. callback m \<noteq> None)) n"
proof (induction n rule: kids_induct)
  case (node n)
  let ?T = "anyNode (\<lambda>m. callback m \<noteq> None)"
  have kidsH: "\<forall>c \<in> set (kids n). counted (walk callback) ?T c"
    using node by (auto simp: exportsOutsideStatements_def dest: anyNode_kid)
  show ?case
    unfolding counted_def
  proof (intro allI impI)
    fix flag flag' r
    assume w: "walk callback n flag = Inr (flag', r)"
    show "exportCount r = countNodes isExportDefault n + flipped flag flag' \<and> flag' = (flag \<or> ?T n)"
    proof (cases flag)
      case True
      with w show ?thesis by (auto simp: walk.simps [of callback n] flipped_def)
    next
      case False
      show ?thesis
      proof (cases "callback n")
        case (Some repl)
        with w False have r: "r = repl" "flag'" by (simp_all add: walk.simps [of callback n])
        from cb [OF Some] node.prems have "countNodes isExportDefault n = 0"
          using anyNode_self [of _ n] by (fastforce simp: exportsOutsideStatements_def)
        with cb [OF Some] have "exportCount repl = 1" by simp
        moreover have "?T n" using Some anyNode_iff [of "\<lambda>m. callback m \<noteq> None" n] by simp
        ultimately show ?thesis
          using r False \<open>countNodes isExportDefault n = 0\<close> by (simp add: flipped_def)
      next
        case None
        with w False have "stepKids (walk callback) n flag = Inr (flag', r)"
          by (simp add: walk.simps [of callback n])
        from stepKids_counted [OF kidsH this] obtain n' where "r = [n']"
          "countNodes isExportDefault n' = countNodes isExportDefault n + flipped flag flag'"
          "flag' = (flag \<or> (\<exists>c \<in> set (kids n). ?T c))" by blast
        moreover have "?T n = (\<exists>c \<in> set (kids n). ?T c)"
          using None anyNode_iff [of "\<lambda>m. callback m \<noteq> None" n] by simp
        ultimately show ?thesis by simp
      qed
    qed
  qed
qed

lemma runPass_counted:
  assumes cb: "\<And>n repl. callback n = Some repl
                \<Longrightarrow> isExpressionStatement n \<and> (countNodes isExportDefault n = 0 \<longrightarrow> exportCount repl = 1)"
    and H: "\<forall>c \<in> set (kids root). exportsOutsideStatements c"
    and run: "runPass callback root flag = Inr (flag', root')"
  shows "countNodes isExportDefault root' = countNodes isExportDefault root + flipped flag flag'
         \<and> flag' = (flag \<or> (\<exists>c \<in> set (kids root). anyNode (\<lambda>m. callback m \<noteq> None) c))"
proof -
  from run obtain r where s: "stepKids (walk callback) root flag = Inr (flag', r)"
    by (auto simp: runPass_def split: sum.splits prod.splits list.splits)
  have "\<forall>c \<in> set (kids root). counted (walk callback) (anyNode (\<lambda>m. callback m \<noteq> None)) c"
    using H walk_counted [of callback, OF cb] by blast
  from stepKids_counted [OF this s] obtain n' where n': "r = [n']"
    "countNodes isExportDefault n' = countNodes isExportDefault root + flipped flag flag'"
    "flag' = (flag \<or> (\<exists>c \<in> set (kids root). anyNode (\<lambda>m. callback m \<noteq> None) c))" by blast
  with run s have "root' = n'" by (simp add: runPass_def)
  with n' show ?thesis by simp
qed

lemma anyNode_or: "anyNode (\<lambda>m. A m \<or> B m) t \<longleftrightarrow> anyNode A t \<or> anyNode B t"
proof (induction t rule: kids_induct)
  case (node n)
  show ?case
    using node anyNode_iff [of "\<lambda>m. A m \<or> B m" n] anyNode_iff [of A n] anyNode_iff [of B n]
    by blast
qed

lemma normalizeEntryPoint_count:
  assumes H: "\<forall>c \<in> set (kids root). exportsOutsideStatements c"
    and run: "normalizeEntryPoint root = Inr (flag, root')"
  shows "countNodes isExportDefault root' = countNodes isExportDefault root + (if flag then 1 else 0)
         \<and> flag = (\<exists>c \<in> set (kids root). anyNode registrationCall c)"
proof -
  from run obtain f1 root1 where p1: "runPass serveCallback root False = Inr (f1, root1)"
    and p2: "runPass denoServeCallback root1 f1 = Inr (flag, root')"
    by (auto simp: normalizeEntryPoint_def split: sum.splits prod.splits)
  from runPass_counted [OF serveCallback_count H p1]
  have c1: "countNodes isExportDefault root1 = countNodes isExportDefault root + flipped False f1"
    and f1: "f1 = (\<exists>c \<in> set (kids root). anyNode (\<lambda>m. serveCallback m \<noteq> None) c)" by auto
  have reg: "(\<exists>c \<in> set (kids root). anyNode registrationCall c)
      = ((\<exists>c \<in> set (kids root). anyNode (\<lambda>m. serveCallback m \<noteq> None) c)
         \<or> (\<exists>c \<in> set (kids root). anyNode (\<lambda>m. denoServeCallback m \<noteq> None) c))"
    unfolding registrationCall_def by (auto simp: anyNode_or)
  show ?thesis
  proof (cases f1)
    case True
    with p2 have "flag" "root' = root1" by (simp_all add: runPass_done)
    with c1 True f1 reg show ?thesis by (simp add: flipped_def)
  next
    case False
    with f1 have "\<forall>c \<in> set (kids root). \<not> anyNode (\<lambda>n. serveCallback n \<noteq> None) c" by simp
    from runPass_id [OF this, of False] p1 have "root1 = root" by simp
    with p2 False have p2': "runPass denoServeCallback root False = Inr (flag, root')" by simp
    from runPass_counted [OF denoServeCallback_count H p2']
    have "countNodes isExportDefault root' = countNodes isExportDefault root + flipped False flag"
      and "flag = (\<exists>c \<in> set (kids root). anyNode (\<lambda>m. denoServeCallback m \<noteq> None) c)" by auto
    with False f1 reg show ?thesis by (simp add: flipped_def)
  qed
qed

text \<open>
  Claim C1 says that a file with a registration call ends with exactly one default export.
  A file that already has a default export and then calls \<open>serve(h)\<close> ends with two.
\<close>

theorem second_default_export_counterexample:
  "transform (Program [ExportDefaultDeclaration (Identifier ''app''),
                       ExpressionStatement (CallExpression (Identifier ''serve'') [Identifier ''h''])])
     = Inr (Program [ExportDefaultDeclaration (Identifier ''app''),
                     ExportDefaultDeclaration (Identifier ''h'')])
   \<and> countNodes isExportDefault (Program [ExportDefaultDeclaration (Identifier ''app''),
                     ExportDefaultDeclaration (Identifier ''h'')]) = 2"
  by (simp add: ast_eval)

text \<open>
  Claim C1, amended.  Whenever the transform succeeds on a tree whose default exports
  stand outside expression statements, the number of default-export statements in its
  output is the number in the tree that the entry-point normalisation receives (the
  input after the import and environment passes) plus one if that tree holds a
  registration call, an expression statement \<open>serve(...)\<close> or \<open>Deno.serve(...)\<close> with a
  function literal or an identifier as handler, at any depth, and plus zero otherwise.
\<close>

theorem default_export_count:
  assumes "transform root = Inr out"
    and "\<forall>c \<in> set (kids (prepare root)). exportsOutsideStatements c"
  shows "countNodes isExportDefault out
         = countNodes isExportDefault (prepare root)
           + (if \<exists>c \<in> set (kids (prepare root)). anyNode registrationCall c then 1 else 0)"
proof -
  from assms(1) obtain flag root' where n: "normalizeEntryPoint (prepare root) = Inr (flag, root')"
    and out: "out = finish root'"
    by (auto simp: transform_parts)
  from normalizeEntryPoint_count [OF assms(2) n] out show ?thesis
    by (simp add: finish_count)
qed

theorem default_export_count_witness:
  "transform (Program [ImportDeclaration [ImportSpecifier ''serve'' ''serve''] ''https://deno.land/std@0.168.0/http/server.ts'',
                       Other ''IfStatement''
                         [Identifier ''main'',
                          BlockStatement [ExpressionStatement
                            (CallExpression (Identifier ''serve'') [Identifier ''h''])]] []])
     = Inr (Program [Other ''IfStatement''
                         [Identifier ''main'',
                          BlockStatement [ExportDefaultDeclaration (Identifier ''h'')]] []])
   \<and> countNodes isExportDefault (Program [Other ''IfStatement''
                         [Identifier ''main'',
                          BlockStatement [ExportDefaultDeclaration (Identifier ''h'')]] []]) = 0 + 1"
proof -
  let ?root = "Program [ImportDeclaration [ImportSpecifier ''serve'' ''serve''] ''https://deno.land/std@0.168.0/http/server.ts'',
                       Other ''IfStatement''
                         [Identifier ''main'',
                          BlockStatement [ExpressionStatement
                            (CallExpression (Identifier ''serve'') [Identifier ''h''])]] []]"
  let ?mid = "Program [Other ''IfStatement''
                         [Identifier ''main'',
                          BlockStatement [ExpressionStatement
                            (CallExpression (Identifier ''serve'') [Identifier ''h''])]] []]"
  let ?out = "Program [Other ''IfStatement''
                         [Identifier ''main'',
                          BlockStatement [ExportDefaultDeclaration (Identifier ''h'')]] []]"
  have p: "prepare ?root = ?mid" by (simp add: ast_eval rx_eval spec_eval)
  have t: "transform ?root = Inr ?out" by (simp add: ast_eval rx_eval spec_eval)
  have h: "\<forall>c \<in> set (kids (prepare ?root)). exportsOutsideStatements c"
    by (simp add: p exportsOutsideStatements_def anyNode.simps countNodes.simps)
  have r: "\<exists>c \<in> set (kids (prepare ?root)). anyNode registrationCall c"
    by (simp add: p anyNode.simps registrationCall_def)
  have c: "countNodes isExportDefault (prepare ?root) = 0"
    by (simp add: p countNodes.simps)
  from default_export_count [OF t h] r c t show ?thesis by simp
qed

lemma threadList_append:
  "threadList f (xs @ ys) flag =
     (case threadList f xs flag of
        Inl e \<Rightarrow> Inl e
      | Inr (flag1, xs') \<Rightarrow>
          (case threadList f ys flag1 of Inl e \<Rightarrow> Inl e | Inr (flag2, ys') \<Rightarrow> Inr (flag2, xs' @ ys')))"
  by (induction xs arbitrary: flag) (auto split: sum.splits prod.splits)


subsection \<open>Calls of \<open>Deno.env.get\<close> that are not replaced\<close>

text \<open>The callee \<open>Deno.env.<method>\<close>.\<close>

definition denoEnv :: "string \<Rightarrow> node" where
  "denoEnv meth = MemberExpression (MemberExpression (Identifier ''Deno'') (Identifier ''env'') False)
                    (Identifier meth) False"

text \<open>
  Claim C2 says that every call \<open>Deno.env.get(e)\<close> is replaced by \<open>process.env[e] ?? ""\<close>.
  The pass replaces the calls it has collected in document order, an outer call before
  a call that is its argument.  When the turn of the inner call comes, its path still
  points into the argument list of the outer call, and that call is no longer part of
  the tree.  For the statement \<open>Deno.env.get(Deno.env.get("A"));\<close> the transform returns
  \<open>process.env[Deno.env.get("A")] ?? "";\<close>: the outer call is replaced, the inner call
  stays as it was.
\<close>

theorem nested_env_get_not_replaced:
  "transform (Program [ExpressionStatement
     (CallExpression (denoEnv ''get'') [CallExpression (denoEnv ''get'') [StringLiteral ''A'']])])
   = Inr (Program [ExpressionStatement
       (LogicalExpression ''??''
          (MemberExpression processEnv (CallExpression (denoEnv ''get'') [StringLiteral ''A'']) True)
          (StringLiteral ''''))])"
  by (simp add: ast_eval denoEnv_def)

text \<open>
  A call one level further down is reached: in \<open>Deno.env.get(f(Deno.env.get("A")))\<close> both
  calls are replaced.  And a call with a spread argument makes the whole transform
  throw, so that no call of the file is replaced.
\<close>

lemma deeper_env_get_replaced:
  "transform (Program [ExpressionStatement
     (CallExpression (denoEnv ''get'')
        [CallExpression (Identifier ''f'') [CallExpression (denoEnv ''get'') [StringLiteral ''A'']]])])
   = Inr (Program [ExpressionStatement
       (LogicalExpression ''??''
          (MemberExpression processEnv
             (CallExpression (Identifier ''f'')
                [LogicalExpression ''??'' (MemberExpression processEnv (StringLiteral ''A'') True)
                   (StringLiteral '''')]) True)
          (StringLiteral ''''))])"
  by (simp add: ast_eval denoEnv_def)

lemma spread_env_get_throws:
  "transform (Program [ExpressionStatement
       (CallExpression (denoEnv ''get'') [StringLiteral ''A'']),
     ExpressionStatement
       (CallExpression (denoEnv ''get'') [Other ''SpreadElement'' [Identifier ''names''] []])])
   = Inl NotAnExpression"
  by (simp add: ast_eval denoEnv_def)

subsection \<open>The statements of a program through the passes\<close>

text \<open>What the passes before the normalisation make of one statement of the program.\<close>

definition prepareStatement :: "node \<Rightarrow> node list" where
  "prepareStatement c = replaceAll serveImportRule (envToObjectPass (envGetRewrite (everywhere importRule c)))"

definition finishStatement :: "node \<Rightarrow> node" where
  "finishStatement c = everywhere handlerVariableAsync (everywhere handlerFunctionAsync
     (everywhere dynamicImportRule (everywhere relativeImportRule c)))"

lemma everywhere_Program:
  "(\<And>b. g (Program b) = Program b) \<Longrightarrow> everywhere g (Program body) = Program (map (everywhere g) body)"
  by (simp add: everywhere.simps [of g "Program body"])

lemma envGetRewrite_Program: "envGetRewrite (Program body) = Program (map envGetRewrite body)"
  by (simp add: envGetRewrite.simps [of "Program body"])

lemma envToObjectPass_Program: "envToObjectPass (Program body) = Program (map envToObjectPass body)"
  by (simp add: envToObjectPass.simps [of "Program body"])

lemma serveImportPass_Program:
  "serveImportPass (Program body) = Program (concat (map (replaceAll serveImportRule) body))"
  by (simp add: serveImportPass_def descendL_def)

lemma prepare_Program: "prepare (Program body) = Program (concat (map prepareStatement body))"
  by (simp add: prepare_def everywhere_Program envGetRewrite_Program envToObjectPass_Program
      serveImportPass_Program prepareStatement_def [abs_def] comp_def)

lemma finish_Program: "finish (Program body) = Program (map finishStatement body)"
  by (simp add: finish_def everywhere_Program finishStatement_def [abs_def] comp_def)

lemma runPass_Program:
  "runPass callback (Program body) flag =
     (case threadList (walk callback) body flag of
        Inl e \<Rightarrow> Inl e
      | Inr (flag', body') \<Rightarrow> Inr (flag', Program body'))"
  by (simp add: runPass_def stepKids_def split: sum.splits prod.splits)

lemma threadList_mid:
  assumes "\<And>fl. f x fl = Inr (fl, [x])" "threadList f (before @ x # after) flag = Inr (flag2, out)"
  shows "\<exists>flag1 before' after'. threadList f before flag = Inr (flag1, before')
           \<and> threadList f after flag1 = Inr (flag2, after') \<and> out = before' @ x # after'"
  using assms by (auto simp: threadList_append split: sum.splits prod.splits)

lemma normalizeEntryPoint_mid:
  assumes x: "\<And>fl. walk serveCallback x fl = Inr (fl, [x])"
    and y: "\<And>fl. walk denoServeCallback x fl = Inr (fl, [x])"
    and run: "normalizeEntryPoint (Program (before @ x # after)) = Inr (flag, root')"
  shows "\<exists>before' after'. root' = Program (before' @ x # after')"
proof -
  from run obtain f1 b1 where 1: "threadList (walk serveCallback) (before @ x # after) False = Inr (f1, b1)"
    and 2: "runPass denoServeCallback (Program b1) f1 = Inr (flag, root')"
    by (auto simp: normalizeEntryPoint_def runPass_Program split: sum.splits prod.splits)
  from threadList_mid [OF x 1] obtain p1 a1 where b1: "b1 = p1 @ x # a1"
    by blast
  from 2 b1 obtain b2 where 5: "threadList (walk denoServeCallback) (p1 @ x # a1) f1 = Inr (flag, b2)"
    and r: "root' = Program b2"
    by (auto simp: runPass_Program split: sum.splits prod.splits)
  from threadList_mid [OF y 5] r show ?thesis by blast
qed

text \<open>A subtree in which no rule matches goes through every pass as it is.\<close>

lemma settled_passes:
  assumes s: "settled s"
  shows "everywhere importRule s = s" "envGetRewrite s = s" "envToObjectPass s = s"
    "replaceAll serveImportRule s = [s]" "walk serveCallback s flag = Inr (flag, [s])"
    "walk denoServeCallback s flag = Inr (flag, [s])" "finishStatement s = s"
proof -
  show "everywhere importRule s = s"
    by (rule everywhere_id, rule settled_no [OF s]) (simp add: ruleApplies_def)
  show "envGetRewrite s = s"
    by (rule envGetRewrite_id, rule settled_no [OF s]) (simp add: ruleApplies_def)
  show "envToObjectPass s = s"
    by (rule envToObjectPass_id, rule settled_no [OF s]) (simp add: ruleApplies_def)
  show "replaceAll serveImportRule s = [s]"
    by (rule replaceAll_id, rule settled_no [OF s]) (simp add: ruleApplies_def)
  show "walk serveCallback s flag = Inr (flag, [s])"
    by (rule walk_id, rule settled_no [OF s]) (simp add: ruleApplies_def)
  show "walk denoServeCallback s flag = Inr (flag, [s])"
    by (rule walk_id, rule settled_no [OF s]) (simp add: ruleApplies_def)
  have 7: "everywhere relativeImportRule s = s"
    by (rule everywhere_id, rule settled_no [OF s]) (simp add: ruleApplies_def)
  have 8: "everywhere dynamicImportRule s = s"
    by (rule everywhere_id, rule settled_no [OF s]) (simp add: ruleApplies_def)
  have 9: "everywhere handlerFunctionAsync s = s"
    by (rule everywhere_id, rule settled_no [OF s]) (simp add: ruleApplies_def)
  have 10: "everywhere handlerVariableAsync s = s"
    by (rule everywhere_id, rule settled_no [OF s]) (simp add: ruleApplies_def)
  show "finishStatement s = s" by (simp add: finishStatement_def 7 8 9 10)
qed

text \<open>
  An import declaration whose specifiers hold nothing to rewrite, and whose rewritten
  source neither marks a \<open>serve\<close> import nor is a relative path ending in \<open>.ts\<close>.
\<close>

definition laterPassesKeep :: "string \<Rightarrow> bool" where
  "laterPassesKeep src =
     (\<not> list_ex (\<lambda>s. includesStr src s) serveImportSources
      \<and> \<not> (startsWith src ''.'' \<and> endsWith src ''.ts''))"

lemma import_prepareStatement:
  assumes "\<forall>s \<in> set specs. settled s" "laterPassesKeep (rewriteImportSource src)"
  shows "prepareStatement (ImportDeclaration specs src) = [ImportDeclaration specs (rewriteImportSource src)]"
proof -
  have m: "map f specs = specs" if "\<And>s. settled s \<Longrightarrow> f s = s" for f
    by (rule map_idI) (use assms(1) that in auto)
  have c: "concat (map (replaceAll serveImportRule) specs) = specs"
  proof -
    have "map (replaceAll serveImportRule) specs = map (\<lambda>c. [c]) specs"
      by (rule map_cong [OF refl]) (use assms(1) in \<open>auto simp: settled_passes\<close>)
    then show ?thesis by (simp only: concat_singletons)
  qed
  have 1: "everywhere importRule (ImportDeclaration specs src) = ImportDeclaration specs (rewriteImportSource src)"
    by (simp add: everywhere.simps [of _ "ImportDeclaration specs src"] m settled_passes)
  have 2: "envGetRewrite (ImportDeclaration specs t) = ImportDeclaration specs t" for t
    by (simp add: envGetRewrite.simps [of "ImportDeclaration specs t"] m settled_passes)
  have 3: "envToObjectPass (ImportDeclaration specs t) = ImportDeclaration specs t" for t
    by (simp add: envToObjectPass.simps [of "ImportDeclaration specs t"] m settled_passes)
  have 4: "replaceAll serveImportRule (ImportDeclaration specs (rewriteImportSource src))
           = [ImportDeclaration specs (rewriteImportSource src)]"
    using assms(2) c
    by (simp add: replaceAll.simps [of _ "ImportDeclaration specs t" for t] laterPassesKeep_def descendL_def)
  show ?thesis by (simp add: prepareStatement_def 1 2 3 4)
qed

lemma import_walk:
  assumes "\<forall>s \<in> set specs. settled s"
  shows "walk serveCallback (ImportDeclaration specs t) flag = Inr (flag, [ImportDeclaration specs t])"
    and "walk denoServeCallback (ImportDeclaration specs t) flag = Inr (flag, [ImportDeclaration specs t])"
proof -
  have k: "stepKids (walk cb) (ImportDeclaration specs t) flag = Inr (flag, [ImportDeclaration specs t])"
    if "\<And>s fl. settled s \<Longrightarrow> walk cb s fl = Inr (fl, [s])" for cb
    by (rule stepKids_id) (use assms that in auto)
  show "walk serveCallback (ImportDeclaration specs t) flag = Inr (flag, [ImportDeclaration specs t])"
    using k [of serveCallback] by (cases flag) (simp_all add: walk.simps [of _ "ImportDeclaration specs t"] settled_passes)
  show "walk denoServeCallback (ImportDeclaration specs t) flag = Inr (flag, [ImportDeclaration specs t])"
    using k [of denoServeCallback] by (cases flag) (simp_all add: walk.simps [of _ "ImportDeclaration specs t"] settled_passes)
qed

lemma import_finishStatement:
  assumes "\<forall>s \<in> set specs. settled s" "laterPassesKeep t"
  shows "finishStatement (ImportDeclaration specs t) = ImportDeclaration specs t"
proof -
  have m: "map f specs = specs" if "\<And>s. settled s \<Longrightarrow> f s = s" for f
    by (rule map_idI) (use assms(1) that in auto)
  have e: "everywhere g s = s" if "settled s" "g = relativeImportRule \<or> g = dynamicImportRule
      \<or> g = handlerFunctionAsync \<or> g = handlerVariableAsync" for g s
    by (rule everywhere_id, rule settled_no [OF that(1)]) (use that(2) in \<open>auto simp: ruleApplies_def\<close>)
  have ev: "everywhere g (ImportDeclaration specs t) = g (ImportDeclaration specs t)"
    if "g = relativeImportRule \<or> g = dynamicImportRule
      \<or> g = handlerFunctionAsync \<or> g = handlerVariableAsync" for g
    using m [of "everywhere g"] e [OF _ that] by (simp add: everywhere.simps [of g "ImportDeclaration specs t"])
  from assms(2) have r: "relativeImportRule (ImportDeclaration specs t) = ImportDeclaration specs t"
    by (auto simp: laterPassesKeep_def)
  have 1: "everywhere relativeImportRule (ImportDeclaration specs t) = ImportDeclaration specs t"
    using ev [of relativeImportRule] r by (simp del: relativeImportRule.simps)
  have 2: "everywhere dynamicImportRule (ImportDeclaration specs t) = ImportDeclaration specs t"
    "everywhere handlerFunctionAsync (ImportDeclaration specs t) = ImportDeclaration specs t"
    "everywhere handlerVariableAsync (ImportDeclaration specs t) = ImportDeclaration specs t"
    using ev [of dynamicImportRule] ev [of handlerFunctionAsync] ev [of handlerVariableAsync] by simp_all
  show ?thesis
    by (simp only: finishStatement_def 1 2)
qed

text \<open>The import declaration stands in the output with the source that pass 1 gave it.\<close>

lemma import_statement_rewritten:
  assumes specs: "\<forall>s \<in> set specs. settled s" and keep: "laterPassesKeep (rewriteImportSource src)"
    and run: "transform (Program (pre @ ImportDeclaration specs src # post)) = Inr out"
  shows "\<exists>pre' post'. out = Program (pre' @ ImportDeclaration specs (rewriteImportSource src) # post')"
proof -
  let ?imp = "ImportDeclaration specs (rewriteImportSource src)"
  from run obtain flag root' where
    n: "normalizeEntryPoint (prepare (Program (pre @ ImportDeclaration specs src # post))) = Inr (flag, root')"
    and out: "out = finish root'"
    by (auto simp: transform_parts)
  have p: "prepare (Program (pre @ ImportDeclaration specs src # post))
           = Program (concat (map prepareStatement pre) @ ?imp # concat (map prepareStatement post))"
    by (simp add: prepare_Program import_prepareStatement [OF specs keep])
  from normalizeEntryPoint_mid [OF import_walk [OF specs] n [unfolded p]]
  obtain b a where "root' = Program (b @ ?imp # a)" by blast
  with out have "out = Program (map finishStatement b @ ?imp # map finishStatement a)"
    by (simp add: finish_Program import_finishStatement [OF specs keep])
  then show ?thesis by blast
qed

text \<open>The forms of a versioned package reference behind the registry prefix.\<close>

definition unscopedForm :: "string \<Rightarrow> string \<Rightarrow> bool" where
  "unscopedForm pkg ver =
     (pkg \<noteq> [] \<and> CHR ''@'' \<notin> set pkg
      \<and> ver \<noteq> [] \<and> isVersionStart (hd ver) \<and> (\<forall>x \<in> set (tl ver). \<not> isLineTerminator x))"

definition scopedForm :: "string \<Rightarrow> string \<Rightarrow> string \<Rightarrow> bool" where
  "scopedForm scope name ver =
     (scope \<noteq> [] \<and> CHR ''/'' \<notin> set scope \<and> name \<noteq> [] \<and> CHR ''@'' \<notin> set name
      \<and> (\<forall>x \<in> set ver. \<not> isLineTerminator x))"

lemma rewriteImportSource_unscoped:
  assumes "unscopedForm pkg ver"
  shows "rewriteImportSource (''npm:'' @ pkg @ ''@'' @ ver) = pkg"
proof -
  from assms obtain v vs where ver: "ver = v # vs" by (cases ver) (auto simp: unscopedForm_def)
  with assms show ?thesis
    using npmBranch_unscoped [of pkg v vs] by (auto simp: unscopedForm_def rewriteImportSource_def)
qed

lemma rewriteImportSource_scoped:
  assumes "scopedForm scope name ver"
  shows "rewriteImportSource (''npm:@'' @ scope @ ''/'' @ name @ ''@'' @ ver) = ''@'' @ scope @ ''/'' @ name"
  using assms npmBranch_scoped [of scope name ver] by (auto simp: scopedForm_def rewriteImportSource_def)

lemma transform_jsr_like_npm:
  "transform (Program (pre @ ImportDeclaration specs (''jsr:'' @ x) # post))
   = transform (Program (pre @ ImportDeclaration specs (''npm:'' @ x) # post))"
proof -
  have "everywhere importRule (ImportDeclaration specs (''jsr:'' @ x))
        = everywhere importRule (ImportDeclaration specs (''npm:'' @ x))"
    using jsr_like_npm [of x]
    by (simp add: everywhere.simps [of _ "ImportDeclaration specs t" for t])
  then have "everywhere importRule (Program (pre @ ImportDeclaration specs (''jsr:'' @ x) # post))
        = everywhere importRule (Program (pre @ ImportDeclaration specs (''npm:'' @ x) # post))"
    by (simp add: everywhere_Program)
  then show ?thesis by (simp only: transform_def)
qed

text \<open>
  Claim C3 says that every static import from \<open>npm:pkg@version\<close> or \<open>jsr:pkg@version\<close>
  ends with the specifier \<open>pkg\<close> or \<open>@scope/pkg\<close>.  The first pass does write that, but
  the pass that removes \<open>serve\<close> imports takes every source that contains \<open>http/server\<close>
  for one: \<open>import { serve } from "npm:@http/server@1.0.0"\<close> is rewritten to
  \<open>@http/server\<close>, loses its only specifier, and is removed from the program.
\<close>

theorem serve_named_package_import_removed_counterexample:
  "transform (Program [ImportDeclaration [ImportSpecifier ''serve'' ''serve''] ''npm:@http/server@1.0.0''])
   = Inr (Program [])"
  by (simp add: ast_eval rx_eval spec_eval)

text \<open>A version that does not start like a version number or a range is kept.\<close>

lemma dist_tag_version_kept:
  "transform (Program [ImportDeclaration [ImportSpecifier ''chunk'' ''chunk''] ''npm:lodash@latest''])
   = Inr (Program [ImportDeclaration [ImportSpecifier ''chunk'' ''chunk''] ''lodash@latest''])"
  by (simp add: ast_eval rx_eval spec_eval)

text \<open>
  Claim C3, amended.  Take an import declaration among the statements of a program, with
  the specifier \<open>npm:p@ver\<close> or \<open>jsr:p@ver\<close>, where \<open>p\<close> is an unscoped name (no \<open>@\<close>) and
  \<open>ver\<close> starts with a digit or one of \<open>. ^ ~ > = <\<close> (numeric versions, ranges, versions
  with a pre-release tag), or \<open>p\<close> is a scoped name \<open>@scope/name\<close> and \<open>ver\<close> is any
  version.  If \<open>p\<close> is not taken for a \<open>serve\<close> import by pass 4 and is not a relative
  path ending in \<open>.ts\<close> (pass 7), and the transform succeeds, then its output holds the
  declaration with the specifier exactly \<open>p\<close> and with its specifier list as it was.
  The two prefixes are treated alike on every specifier.
\<close>

theorem registry_specifier_rewrite:
  "((p = pkg \<and> unscopedForm pkg ver \<or> p = ''@'' @ scope @ ''/'' @ name \<and> scopedForm scope name ver)
      \<and> laterPassesKeep p \<and> (\<forall>s \<in> set specs. settled s)
      \<and> (registry = ''npm:'' \<or> registry = ''jsr:'')
      \<and> transform (Program (pre @ ImportDeclaration specs (registry @ p @ ''@'' @ ver) # post)) = Inr out
    \<longrightarrow> (\<exists>pre' post'. out = Program (pre' @ ImportDeclaration specs p # post')))
   \<and> transform (Program (pre @ ImportDeclaration specs (''jsr:'' @ x) # post))
       = transform (Program (pre @ ImportDeclaration specs (''npm:'' @ x) # post))"
proof (intro conjI impI)
  assume a: "(p = pkg \<and> unscopedForm pkg ver \<or> p = ''@'' @ scope @ ''/'' @ name \<and> scopedForm scope name ver)
      \<and> laterPassesKeep p \<and> (\<forall>s \<in> set specs. settled s)
      \<and> (registry = ''npm:'' \<or> registry = ''jsr:'')
      \<and> transform (Program (pre @ ImportDeclaration specs (registry @ p @ ''@'' @ ver) # post)) = Inr out"
  then have r: "rewriteImportSource (''npm:'' @ p @ ''@'' @ ver) = p"
    using rewriteImportSource_unscoped [of pkg ver] rewriteImportSource_scoped [of scope name ver]
    by auto
  from a have "transform (Program (pre @ ImportDeclaration specs (''npm:'' @ p @ ''@'' @ ver) # post)) = Inr out"
    using transform_jsr_like_npm [of pre specs "p @ ''@'' @ ver" post] by auto
  from import_statement_rewritten [OF _ _ this] a r
  show "\<exists>pre' post'. out = Program (pre' @ ImportDeclaration specs p # post')"
    by simp
next
  show "transform (Program (pre @ ImportDeclaration specs (''jsr:'' @ x) # post))
       = transform (Program (pre @ ImportDeclaration specs (''npm:'' @ x) # post))"
    by (rule transform_jsr_like_npm)
qed

theorem registry_specifier_rewrite_witness:
  "scopedForm ''supabase'' ''supabase-js'' ''2.0.0-rc.1'' \<and> laterPassesKeep ''@supabase/supabase-js''
   \<and> transform (Program [ExpressionStatement (CallExpression (Identifier ''serve'') [Identifier ''app'']),
                       ImportDeclaration [ImportSpecifier ''createClient'' ''createClient'']
                         ''jsr:@supabase/supabase-js@2.0.0-rc.1''])
     = Inr (Program [ExportDefaultDeclaration (Identifier ''app''),
                     ImportDeclaration [ImportSpecifier ''createClient'' ''createClient'']
                         ''@supabase/supabase-js''])
   \<and> (\<exists>pre' post'. Program [ExportDefaultDeclaration (Identifier ''app''),
                     ImportDeclaration [ImportSpecifier ''createClient'' ''createClient'']
                         ''@supabase/supabase-js'']
          = Program (pre' @ ImportDeclaration [ImportSpecifier ''createClient'' ''createClient'']
                         ''@supabase/supabase-js'' # post'))"
proof -
  let ?s = "ExpressionStatement (CallExpression (Identifier ''serve'') [Identifier ''app''])"
  let ?sp = "[ImportSpecifier ''createClient'' ''createClient'']"
  let ?out = "Program [ExportDefaultDeclaration (Identifier ''app''), ImportDeclaration ?sp ''@supabase/supabase-js'']"
  have t: "transform (Program ([?s] @ ImportDeclaration ?sp (''jsr:'' @ ''@supabase/supabase-js'' @ ''@'' @ ''2.0.0-rc.1'') # []))
            = Inr ?out"
    by (simp add: ast_eval rx_eval spec_eval)
  have k: "laterPassesKeep ''@supabase/supabase-js''"
    by (simp add: laterPassesKeep_def serveImportSources_def)
  have s: "\<forall>s \<in> set ?sp. settled s"
    by (simp add: settled_def ruleApplies_def isEnvCall_def anyNode.simps kids_def)
  have f: "scopedForm ''supabase'' ''supabase-js'' ''2.0.0-rc.1''"
    by (simp add: scopedForm_def isLineTerminator_def)
  from registry_specifier_rewrite [of "''@supabase/supabase-js''" "''''" "''2.0.0-rc.1''" "''supabase''" "''supabase-js''"
      ?sp "''jsr:''" "[?s]" "[]" ?out] t k s f
  have "\<exists>pre' post'. ?out = Program (pre' @ ImportDeclaration ?sp ''@supabase/supabase-js'' # post')"
    by simp
  with t k f show ?thesis by simp
qed

text \<open>The same for an unscoped package with a version range, imported by default.\<close>

lemma unscoped_import_rewritten:
  "transform (Program [ImportDeclaration [Other ''ImportDefaultSpecifier'' [Identifier ''_''] []]
                         ''npm:lodash@^4.17.21''])
     = Inr (Program [ImportDeclaration [Other ''ImportDefaultSpecifier'' [Identifier ''_''] []] ''lodash''])"
  by (simp add: ast_eval rx_eval spec_eval)

subsection \<open>Which registration call is honoured\<close>

text \<open>The nodes of a tree in document order.\<close>

function preorder :: "node \<Rightarrow> node list" where
  "preorder n = n # concat (map preorder (kids n))"
  by pat_completeness auto
termination
  by (relation "measure size") (auto dest: kids_size)

declare preorder.simps [simp del]

text \<open>
  \<open>replacedFirst callback t s out\<close>: the list \<open>out\<close> is the tree \<open>t\<close> in which the node
  \<open>s\<close>, the first node in document order that the callback answers, is replaced by the
  callback's answer, and every other node is as it was.  In a single-valued field the
  answer has to be one node (or none, which leaves the field empty); in an array-valued
  field it is spliced in.
\<close>

inductive replacedFirst :: "(node \<Rightarrow> node list option) \<Rightarrow> node \<Rightarrow> node \<Rightarrow> node list \<Rightarrow> bool"
  for callback :: "node \<Rightarrow> node list option" where
  here: "callback n = Some repl \<Longrightarrow> replacedFirst callback n n repl"
| inOne: "callback n = None \<Longrightarrow> slots n = before @ One c # after
    \<Longrightarrow> \<forall>x \<in> set (concat (map slotNodes before)). \<not> anyNode (\<lambda>m. callback m \<noteq> None) x
    \<Longrightarrow> replacedFirst callback c s r \<Longrightarrow> r = [c'] \<or> r = [] \<and> c' = NoNode
    \<Longrightarrow> replacedFirst callback n s [build n (before @ One c' # after)]"
| inMany: "callback n = None \<Longrightarrow> slots n = before @ Many (pre @ c # post) # after
    \<Longrightarrow> \<forall>x \<in> set (concat (map slotNodes before) @ pre). \<not> anyNode (\<lambda>m. callback m \<noteq> None) x
    \<Longrightarrow> replacedFirst callback c s r
    \<Longrightarrow> replacedFirst callback n s [build n (before @ Many (pre @ r @ post) # after)]"

text \<open>What the traversal of one child does, in these terms.\<close>

definition tracked :: "(node \<Rightarrow> node list option) \<Rightarrow> (node \<Rightarrow> bool \<Rightarrow> walked) \<Rightarrow> node \<Rightarrow> bool" where
  "tracked callback f c =
     (\<forall>flag flag' r. f c flag = Inr (flag', r) \<longrightarrow>
        (flag \<longrightarrow> flag' \<and> r = [c])
        \<and> (\<not> flag \<and> \<not> flag' \<longrightarrow> r = [c] \<and> \<not> anyNode (\<lambda>m. callback m \<noteq> None) c)
        \<and> (\<not> flag \<and> flag' \<longrightarrow> (\<exists>s. replacedFirst callback c s r)))"

lemma threadList_tracked:
  assumes "\<forall>c \<in> set cs. tracked callback f c" "threadList f cs flag = Inr (flag', cs')"
  shows "(flag \<longrightarrow> flag' \<and> cs' = cs)
     \<and> (\<not> flag \<and> \<not> flag' \<longrightarrow> cs' = cs \<and> (\<forall>c \<in> set cs. \<not> anyNode (\<lambda>m. callback m \<noteq> None) c))
     \<and> (\<not> flag \<and> flag' \<longrightarrow> (\<exists>pre c post s r. cs = pre @ c # post \<and> cs' = pre @ r @ post
            \<and> (\<forall>x \<in> set pre. \<not> anyNode (\<lambda>m. callback m \<noteq> None) x) \<and> replacedFirst callback c s r))"
  using assms
proof (induction cs arbitrary: flag cs')
  case Nil
  then show ?case by auto
next
  case (Cons c cs)
  from Cons.prems(2) obtain f1 r rest where 1: "f c flag = Inr (f1, r)"
    and 2: "threadList f cs f1 = Inr (flag', rest)" and cs': "cs' = r @ rest"
    by (auto split: sum.splits prod.splits)
  from Cons.prems(1) 1 have c: "flag \<longrightarrow> f1 \<and> r = [c]"
    "\<not> flag \<and> \<not> f1 \<longrightarrow> r = [c] \<and> \<not> anyNode (\<lambda>m. callback m \<noteq> None) c"
    "\<not> flag \<and> f1 \<longrightarrow> (\<exists>s. replacedFirst callback c s r)"
    by (auto simp: tracked_def)
  from Cons.IH [OF _ 2] Cons.prems(1) have ih: "f1 \<longrightarrow> flag' \<and> rest = cs"
    "\<not> f1 \<and> \<not> flag' \<longrightarrow> rest = cs \<and> (\<forall>c \<in> set cs. \<not> anyNode (\<lambda>m. callback m \<noteq> None) c)"
    "\<not> f1 \<and> flag' \<longrightarrow> (\<exists>pre c post s r. cs = pre @ c # post \<and> rest = pre @ r @ post
            \<and> (\<forall>x \<in> set pre. \<not> anyNode (\<lambda>m. callback m \<noteq> None) x) \<and> replacedFirst callback c s r)"
    by auto
  have A: "flag \<longrightarrow> flag' \<and> cs' = c # cs"
    using c ih cs' by auto
  have B: "\<not> flag \<and> \<not> flag' \<longrightarrow> cs' = c # cs \<and> (\<forall>c \<in> set (c # cs). \<not> anyNode (\<lambda>m. callback m \<noteq> None) c)"
    using c ih cs' by auto
  have C: "\<exists>pre x post s r. c # cs = pre @ x # post \<and> cs' = pre @ r @ post
            \<and> (\<forall>x \<in> set pre. \<not> anyNode (\<lambda>m. callback m \<noteq> None) x) \<and> replacedFirst callback x s r"
    if a: "\<not> flag \<and> flag'"
  proof (cases f1)
    case True
    with a c obtain s where "replacedFirst callback c s r" by auto
    moreover from True ih cs' have "cs' = [] @ r @ cs" by simp
    ultimately show ?thesis by (intro exI [of _ "[]"] exI [of _ c] exI [of _ cs] exI [of _ s] exI [of _ r]) simp
  next
    case False
    with a c have r: "r = [c]" and nc: "\<not> anyNode (\<lambda>m. callback m \<noteq> None) c" by auto
    from False a ih obtain pre x post s r2 where "cs = pre @ x # post" "rest = pre @ r2 @ post"
      "\<forall>x \<in> set pre. \<not> anyNode (\<lambda>m. callback m \<noteq> None) x" "replacedFirst callback x s r2" by blast
    with r nc cs' show ?thesis
      by (intro exI [of _ "c # pre"] exI [of _ x] exI [of _ post] exI [of _ s] exI [of _ r2]) simp
  qed
  from A B C show ?case by blast
qed

definition slotsRewritten :: "(node \<Rightarrow> node list option) \<Rightarrow> slot list \<Rightarrow> slot list \<Rightarrow> bool" where
  "slotsRewritten callback ss ss' =
     ((\<exists>before c after s r c'. ss = before @ One c # after \<and> ss' = before @ One c' # after
          \<and> (\<forall>x \<in> set (concat (map slotNodes before)). \<not> anyNode (\<lambda>m. callback m \<noteq> None) x)
          \<and> replacedFirst callback c s r \<and> (r = [c'] \<or> r = [] \<and> c' = NoNode))
      \<or> (\<exists>before pre c post after s r. ss = before @ Many (pre @ c # post) # after
          \<and> ss' = before @ Many (pre @ r @ post) # after
          \<and> (\<forall>x \<in> set (concat (map slotNodes before) @ pre). \<not> anyNode (\<lambda>m. callback m \<noteq> None) x)
          \<and> replacedFirst callback c s r))"

lemma slotsRewritten_Cons:
  assumes p: "\<forall>x \<in> set (slotNodes s0). \<not> anyNode (\<lambda>m. callback m \<noteq> None) x"
    and q: "slotsRewritten callback ss ss'"
  shows "slotsRewritten callback (s0 # ss) (s0 # ss')"
proof -
  from q consider
    (one) before c after s r c' where "ss = before @ One c # after" "ss' = before @ One c' # after"
      "\<forall>x \<in> set (concat (map slotNodes before)). \<not> anyNode (\<lambda>m. callback m \<noteq> None) x"
      "replacedFirst callback c s r" "r = [c'] \<or> r = [] \<and> c' = NoNode"
  | (many) before pre c post after s r where "ss = before @ Many (pre @ c # post) # after"
      "ss' = before @ Many (pre @ r @ post) # after"
      "\<forall>x \<in> set (concat (map slotNodes before) @ pre). \<not> anyNode (\<lambda>m. callback m \<noteq> None) x"
      "replacedFirst callback c s r"
    unfolding slotsRewritten_def by blast
  then show ?thesis
  proof cases
    case one
    with p have "s0 # ss = (s0 # before) @ One c # after \<and> s0 # ss' = (s0 # before) @ One c' # after
          \<and> (\<forall>x \<in> set (concat (map slotNodes (s0 # before))). \<not> anyNode (\<lambda>m. callback m \<noteq> None) x)
          \<and> replacedFirst callback c s r \<and> (r = [c'] \<or> r = [] \<and> c' = NoNode)"
      by auto
    then show ?thesis unfolding slotsRewritten_def by blast
  next
    case many
    with p have "s0 # ss = (s0 # before) @ Many (pre @ c # post) # after
          \<and> s0 # ss' = (s0 # before) @ Many (pre @ r @ post) # after
          \<and> (\<forall>x \<in> set (concat (map slotNodes (s0 # before)) @ pre). \<not> anyNode (\<lambda>m. callback m \<noteq> None) x)
          \<and> replacedFirst callback c s r"
      by auto
    then show ?thesis unfolding slotsRewritten_def by blast
  qed
qed

lemma threadSlot_tracked:
  assumes "\<forall>c \<in> set (slotNodes s0). tracked callback f c" "threadSlot f s0 flag = Inr (flag', s1)"
  shows "(flag \<longrightarrow> flag' \<and> s1 = s0)
     \<and> (\<not> flag \<and> \<not> flag' \<longrightarrow> s1 = s0 \<and> (\<forall>c \<in> set (slotNodes s0). \<not> anyNode (\<lambda>m. callback m \<noteq> None) c))
     \<and> (\<not> flag \<and> flag' \<longrightarrow> slotsRewritten callback (s0 # after) (s1 # after))"
proof (cases s0)
  case (One c)
  with assms(2) obtain r where 1: "f c flag = Inr (flag', r)"
    and s1: "r = [] \<and> s1 = One NoNode \<or> (\<exists>c'. r = [c'] \<and> s1 = One c')"
    by (auto split: sum.splits prod.splits list.splits)
  from assms(1) One 1 have c: "flag \<longrightarrow> flag' \<and> r = [c]"
    "\<not> flag \<and> \<not> flag' \<longrightarrow> r = [c] \<and> \<not> anyNode (\<lambda>m. callback m \<noteq> None) c"
    "\<not> flag \<and> flag' \<longrightarrow> (\<exists>s. replacedFirst callback c s r)"
    by (auto simp: tracked_def)
  have C: "slotsRewritten callback (s0 # after) (s1 # after)" if a: "\<not> flag \<and> flag'"
  proof -
    from a c obtain s where s: "replacedFirst callback c s r" by auto
    from s1 obtain c' where c': "s1 = One c'" "r = [c'] \<or> r = [] \<and> c' = NoNode" by auto
    have "s0 # after = [] @ One c # after \<and> s1 # after = [] @ One c' # after
          \<and> (\<forall>x \<in> set (concat (map slotNodes [])). \<not> anyNode (\<lambda>m. callback m \<noteq> None) x)
          \<and> replacedFirst callback c s r \<and> (r = [c'] \<or> r = [] \<and> c' = NoNode)"
      using One c' s by simp
    then show ?thesis unfolding slotsRewritten_def by blast
  qed
  from c s1 One C show ?thesis by auto
next
  case (Many cs)
  with assms(2) obtain cs' where 1: "threadList f cs flag = Inr (flag', cs')" and s1: "s1 = Many cs'"
    by (auto split: sum.splits prod.splits)
  from threadList_tracked [OF _ 1, of callback] assms(1) Many
  have c: "flag \<longrightarrow> flag' \<and> cs' = cs"
    "\<not> flag \<and> \<not> flag' \<longrightarrow> cs' = cs \<and> (\<forall>c \<in> set cs. \<not> anyNode (\<lambda>m. callback m \<noteq> None) c)"
    "\<not> flag \<and> flag' \<longrightarrow> (\<exists>pre c post s r. cs = pre @ c # post \<and> cs' = pre @ r @ post
            \<and> (\<forall>x \<in> set pre. \<not> anyNode (\<lambda>m. callback m \<noteq> None) x) \<and> replacedFirst callback c s r)"
    by auto
  have C: "slotsRewritten callback (s0 # after) (s1 # after)" if a: "\<not> flag \<and> flag'"
  proof -
    from a c obtain pre c post s r where "cs = pre @ c # post" "cs' = pre @ r @ post"
      "\<forall>x \<in> set pre. \<not> anyNode (\<lambda>m. callback m \<noteq> None) x" "replacedFirst callback c s r" by blast
    then have "s0 # after = [] @ Many (pre @ c # post) # after \<and> s1 # after = [] @ Many (pre @ r @ post) # after
          \<and> (\<forall>x \<in> set (concat (map slotNodes []) @ pre). \<not> anyNode (\<lambda>m. callback m \<noteq> None) x)
          \<and> replacedFirst callback c s r"
      using Many s1 by simp
    then show ?thesis unfolding slotsRewritten_def by blast
  qed
  from c s1 Many C show ?thesis by auto
qed

lemma threadSlots_tracked:
  assumes "\<forall>c \<in> set (concat (map slotNodes ss)). tracked callback f c" "threadSlots f ss flag = Inr (flag', ss')"
  shows "(flag \<longrightarrow> flag' \<and> ss' = ss)
     \<and> (\<not> flag \<and> \<not> flag' \<longrightarrow> ss' = ss
          \<and> (\<forall>c \<in> set (concat (map slotNodes ss)). \<not> anyNode (\<lambda>m. callback m \<noteq> None) c))
     \<and> (\<not> flag \<and> flag' \<longrightarrow> slotsRewritten callback ss ss')"
  using assms
proof (induction ss arbitrary: flag ss')
  case Nil
  then show ?case by auto
next
  case (Cons s0 ss)
  from Cons.prems(2) obtain f1 s1 rest where 1: "threadSlot f s0 flag = Inr (f1, s1)"
    and 2: "threadSlots f ss f1 = Inr (flag', rest)" and ss': "ss' = s1 # rest"
    by (auto split: sum.splits prod.splits)
  from threadSlot_tracked [OF _ 1, of callback ss] Cons.prems(1)
  have c: "flag \<longrightarrow> f1 \<and> s1 = s0"
    "\<not> flag \<and> \<not> f1 \<longrightarrow> s1 = s0 \<and> (\<forall>c \<in> set (slotNodes s0). \<not> anyNode (\<lambda>m. callback m \<noteq> None) c)"
    "\<not> flag \<and> f1 \<longrightarrow> slotsRewritten callback (s0 # ss) (s1 # ss)"
    by auto
  from Cons.IH [OF _ 2] Cons.prems(1)
  have ih: "f1 \<longrightarrow> flag' \<and> rest = ss"
    "\<not> f1 \<and> \<not> flag' \<longrightarrow> rest = ss \<and> (\<forall>c \<in> set (concat (map slotNodes ss)). \<not> anyNode (\<lambda>m. callback m \<noteq> None) c)"
    "\<not> f1 \<and> flag' \<longrightarrow> slotsRewritten callback ss rest"
    by auto
  have A: "flag \<longrightarrow> flag' \<and> ss' = s0 # ss" using c ih ss' by auto
  have B: "\<not> flag \<and> \<not> flag' \<longrightarrow> ss' = s0 # ss
          \<and> (\<forall>c \<in> set (concat (map slotNodes (s0 # ss))). \<not> anyNode (\<lambda>m. callback m \<noteq> None) c)"
    using c ih ss' by auto
  have C: "slotsRewritten callback (s0 # ss) ss'" if a: "\<not> flag \<and> flag'"
  proof (cases f1)
    case True
    with a c ih ss' show ?thesis by auto
  next
    case False
    with a c ih have "s1 = s0" "\<forall>c \<in> set (slotNodes s0). \<not> anyNode (\<lambda>m. callback m \<noteq> None) c"
      "slotsRewritten callback ss rest" by auto
    with ss' show ?thesis by (auto intro: slotsRewritten_Cons)
  qed
  from A B C show ?case by blast
qed

lemma stepKids_tracked:
  assumes k: "\<forall>c \<in> set (kids n). tracked callback f c" and n: "callback n = None"
    and s: "stepKids f n flag = Inr (flag', r)"
  shows "(flag \<longrightarrow> flag' \<and> r = [n])
     \<and> (\<not> flag \<and> \<not> flag' \<longrightarrow> r = [n] \<and> \<not> anyNode (\<lambda>m. callback m \<noteq> None) n)
     \<and> (\<not> flag \<and> flag' \<longrightarrow> (\<exists>s. replacedFirst callback n s r))"
proof -
  from s obtain sl where 1: "threadSlots f (slots n) flag = Inr (flag', sl)" and r: "r = [build n sl]"
    by (auto simp: stepKids_def split: sum.splits prod.splits)
  from threadSlots_tracked [OF _ 1, of callback] k
  have c: "flag \<longrightarrow> flag' \<and> sl = slots n"
    "\<not> flag \<and> \<not> flag' \<longrightarrow> sl = slots n \<and> (\<forall>c \<in> set (kids n). \<not> anyNode (\<lambda>m. callback m \<noteq> None) c)"
    "\<not> flag \<and> flag' \<longrightarrow> slotsRewritten callback (slots n) sl"
    by (auto simp: kids_def)
  have B: "\<not> anyNode (\<lambda>m. callback m \<noteq> None) n" if "\<forall>c \<in> set (kids n). \<not> anyNode (\<lambda>m. callback m \<noteq> None) c"
    using that n anyNode_iff [of "\<lambda>m. callback m \<noteq> None" n] by simp
  have C: "\<exists>s. replacedFirst callback n s r" if q: "slotsRewritten callback (slots n) sl"
  proof -
    from q consider
      (one) before c after s r0 c' where "slots n = before @ One c # after" "sl = before @ One c' # after"
        "\<forall>x \<in> set (concat (map slotNodes before)). \<not> anyNode (\<lambda>m. callback m \<noteq> None) x"
        "replacedFirst callback c s r0" "r0 = [c'] \<or> r0 = [] \<and> c' = NoNode"
    | (many) before pre c post after s r0 where "slots n = before @ Many (pre @ c # post) # after"
        "sl = before @ Many (pre @ r0 @ post) # after"
        "\<forall>x \<in> set (concat (map slotNodes before) @ pre). \<not> anyNode (\<lambda>m. callback m \<noteq> None) x"
        "replacedFirst callback c s r0"
      unfolding slotsRewritten_def by blast
    then show ?thesis
    proof cases
      case one
      from replacedFirst.inOne [of callback n before c after s r0 c', OF n one(1,3,4,5)] one(2) r
      show ?thesis by blast
    next
      case many
      from replacedFirst.inMany [of callback n before pre c post after s r0, OF n many(1,3,4)] many(2) r
      show ?thesis by blast
    qed
  qed
  from c B C r show ?thesis by auto
qed

lemma walk_tracked: "tracked callback (walk callback) n"
proof (induction n rule: kids_induct)
  case (node n)
  show ?case
    unfolding tracked_def
  proof (intro allI impI)
    fix flag flag' r
    assume w: "walk callback n flag = Inr (flag', r)"
    show "(flag \<longrightarrow> flag' \<and> r = [n])
        \<and> (\<not> flag \<and> \<not> flag' \<longrightarrow> r = [n] \<and> \<not> anyNode (\<lambda>m. callback m \<noteq> None) n)
        \<and> (\<not> flag \<and> flag' \<longrightarrow> (\<exists>s. replacedFirst callback n s r))"
    proof (cases flag)
      case True
      with w show ?thesis by (simp add: walk_done)
    next
      case False
      show ?thesis
      proof (cases "callback n")
        case (Some repl)
        with w False have "r = repl" "flag'" by (simp_all add: walk.simps [of callback n])
        with Some False show ?thesis by (auto intro: replacedFirst.here)
      next
        case None
        with w False have "stepKids (walk callback) n flag = Inr (flag', r)"
          by (simp add: walk.simps [of callback n])
        from stepKids_tracked [of n callback "walk callback", OF _ None this] node.IH show ?thesis by blast
      qed
    qed
  qed
qed

lemma preorder_no_match: "\<not> anyNode P x \<Longrightarrow> y \<in> set (preorder x) \<Longrightarrow> \<not> P y"
proof (induction x rule: kids_induct)
  case (node n)
  from node.prems(2) consider "y = n" | c where "c \<in> set (kids n)" "y \<in> set (preorder c)"
    by (auto simp: preorder.simps [of n])
  then show ?case
  proof cases
    case 1
    with node.prems(1) show ?thesis by (auto dest: anyNode_self)
  next
    case 2
    from node.IH [OF 2(1) anyNode_kid [OF node.prems(1) 2(1)] 2(2)] show ?thesis .
  qed
qed

lemma find_append_first:
  "find P (xs @ ys) = (case find P xs of None \<Rightarrow> find P ys | Some x \<Rightarrow> Some x)"
  by (induction xs) auto

lemma find_preorders_none:
  "\<forall>x \<in> set xs. \<not> anyNode P x \<Longrightarrow> find P (concat (map preorder xs)) = None"
  by (auto simp: find_None_iff dest: preorder_no_match)

lemma find_preorder_kid:
  assumes "\<not> P n" "kids n = xs @ c # ys" "\<forall>x \<in> set xs. \<not> anyNode P x" "find P (preorder c) = Some s"
  shows "find P (preorder n) = Some s"
  using assms find_preorders_none [of xs P]
  by (simp add: preorder.simps [of n] find_append_first)

text \<open>The node that is replaced is the first in document order that the callback answers.\<close>

lemma replacedFirst_first:
  "replacedFirst callback n s r \<Longrightarrow> find (\<lambda>m. callback m \<noteq> None) (preorder n) = Some s"
proof (induction rule: replacedFirst.induct)
  case (here n repl)
  then show ?case by (simp add: preorder.simps [of n])
next
  case (inOne n before c after s r c')
  have "kids n = concat (map slotNodes before) @ c # concat (map slotNodes after)"
    using inOne.hyps(2) by (simp add: kids_def)
  from find_preorder_kid [OF _ this inOne.hyps(3) inOne.IH] inOne.hyps(1) show ?case by simp
next
  case (inMany n before pre c post after s r)
  have "kids n = (concat (map slotNodes before) @ pre) @ c # (post @ concat (map slotNodes after))"
    using inMany.hyps(2) by (simp add: kids_def)
  from find_preorder_kid [OF _ this inMany.hyps(3) inMany.IH] inMany.hyps(1) show ?case by simp
qed

lemma replacedFirst_match: "replacedFirst callback n s r \<Longrightarrow> anyNode (\<lambda>m. callback m \<noteq> None) n"
proof (induction rule: replacedFirst.induct)
  case (here n repl)
  then show ?case using anyNode_iff [of "\<lambda>m. callback m \<noteq> None" n] by simp
next
  case (inOne n before c after s r c')
  have "c \<in> set (kids n)" using inOne.hyps(2) by (simp add: kids_def)
  with inOne.IH show ?case using anyNode_iff [of "\<lambda>m. callback m \<noteq> None" n] by blast
next
  case (inMany n before pre c post after s r)
  have "c \<in> set (kids n)" using inMany.hyps(2) by (simp add: kids_def)
  with inMany.IH show ?case using anyNode_iff [of "\<lambda>m. callback m \<noteq> None" n] by blast
qed

lemma runPass_tracked:
  assumes n: "callback root = None" and run: "runPass callback root False = Inr (flag, root')"
  shows "(if anyNode (\<lambda>m. callback m \<noteq> None) root
          then flag \<and> (\<exists>s. replacedFirst callback root s [root'])
          else \<not> flag \<and> root' = root)"
proof -
  from run obtain r where s: "stepKids (walk callback) root False = Inr (flag, r)" and r: "r = [root']"
    by (auto simp: runPass_def split: sum.splits prod.splits list.splits)
  from stepKids_tracked [of root callback "walk callback", OF _ n s] walk_tracked [of callback]
  have "\<not> flag \<longrightarrow> r = [root] \<and> \<not> anyNode (\<lambda>m. callback m \<noteq> None) root"
    "flag \<longrightarrow> (\<exists>s. replacedFirst callback root s r)" by auto
  with r show ?thesis by (auto dest: replacedFirst_match)
qed

lemma normalizeEntryPoint_tracked:
  assumes n: "serveCallback root = None" "denoServeCallback root = None"
    and run: "normalizeEntryPoint root = Inr (flag, root')"
  shows "(if anyNode (\<lambda>m. serveCallback m \<noteq> None) root
          then \<exists>s. replacedFirst serveCallback root s [root']
          else if anyNode (\<lambda>m. denoServeCallback m \<noteq> None) root
          then \<exists>s. replacedFirst denoServeCallback root s [root']
          else root' = root)"
proof -
  from run obtain f1 root1 where p1: "runPass serveCallback root False = Inr (f1, root1)"
    and p2: "runPass denoServeCallback root1 f1 = Inr (flag, root')"
    by (auto simp: normalizeEntryPoint_def split: sum.splits prod.splits)
  show ?thesis
  proof (cases "anyNode (\<lambda>m. serveCallback m \<noteq> None) root")
    case True
    with runPass_tracked [OF n(1) p1] have "f1" "\<exists>s. replacedFirst serveCallback root s [root1]" by auto
    with p2 True show ?thesis by (simp add: runPass_done)
  next
    case False
    with runPass_tracked [OF n(1) p1] have "\<not> f1" "root1 = root" by auto
    with p2 have "runPass denoServeCallback root False = Inr (flag, root')" by simp
    from runPass_tracked [OF n(2) this] False show ?thesis by auto
  qed
qed

text \<open>
  Claim C6 says that of several registration calls, in any mix of the two forms, the
  first in document order is honoured.  In \<open>Deno.serve(h1); serve(h2);\<close> the second call
  is rewritten and the first is left as it is.
\<close>

theorem later_serve_call_wins_counterexample:
  "transform (Program
     [ExpressionStatement (CallExpression
        (MemberExpression (Identifier ''Deno'') (Identifier ''serve'') False) [Identifier ''h1'']),
      ExpressionStatement (CallExpression (Identifier ''serve'') [Identifier ''h2''])])
   = Inr (Program
     [ExpressionStatement (CallExpression
        (MemberExpression (Identifier ''Deno'') (Identifier ''serve'') False) [Identifier ''h1'']),
      ExportDefaultDeclaration (Identifier ''h2'')])"
  by (simp add: ast_eval)

text \<open>
  Claim C6, amended.  Within one file at most one registration call is rewritten, and
  every other node, later registration calls included, stays as the earlier passes left
  it.  The call honoured is the first bare \<open>serve\<close> call in document order, at whatever
  depth it stands, whenever the file has one that the \<open>serve\<close> pass rewrites; the first
  \<open>Deno.serve\<close> call in document order is honoured only in a file without such a bare
  \<open>serve\<close> call, because the \<open>serve\<close> pass runs over the whole file first; and a file
  without either is left alone by the normalisation.
\<close>

theorem first_registration_call_honoured:
  assumes "transform (Program body) = Inr out"
  shows "\<exists>root'. out = finish root' \<and>
     (if anyNode (\<lambda>m. serveCallback m \<noteq> None) (prepare (Program body))
      then \<exists>s. find (\<lambda>m. serveCallback m \<noteq> None) (preorder (prepare (Program body))) = Some s
             \<and> replacedFirst serveCallback (prepare (Program body)) s [root']
      else if anyNode (\<lambda>m. denoServeCallback m \<noteq> None) (prepare (Program body))
      then \<exists>s. find (\<lambda>m. denoServeCallback m \<noteq> None) (preorder (prepare (Program body))) = Some s
             \<and> replacedFirst denoServeCallback (prepare (Program body)) s [root']
      else root' = prepare (Program body))"
proof -
  from assms obtain flag root' where n: "normalizeEntryPoint (prepare (Program body)) = Inr (flag, root')"
    and out: "out = finish root'"
    by (auto simp: transform_parts)
  have "serveCallback (prepare (Program body)) = None" "denoServeCallback (prepare (Program body)) = None"
    by (simp_all add: prepare_Program)
  from normalizeEntryPoint_tracked [OF this n]
  have t: "if anyNode (\<lambda>m. serveCallback m \<noteq> None) (prepare (Program body))
      then \<exists>s. replacedFirst serveCallback (prepare (Program body)) s [root']
      else if anyNode (\<lambda>m. denoServeCallback m \<noteq> None) (prepare (Program body))
      then \<exists>s. replacedFirst denoServeCallback (prepare (Program body)) s [root']
      else root' = prepare (Program body)" .
  have f: "\<exists>s. find (\<lambda>m. cb m \<noteq> None) (preorder t) = Some s \<and> replacedFirst cb t s r"
    if "\<exists>s. replacedFirst cb t s r" for cb t r
    using that replacedFirst_first [of cb t _ r] by blast
  have "if anyNode (\<lambda>m. serveCallback m \<noteq> None) (prepare (Program body))
      then \<exists>s. find (\<lambda>m. serveCallback m \<noteq> None) (preorder (prepare (Program body))) = Some s
             \<and> replacedFirst serveCallback (prepare (Program body)) s [root']
      else if anyNode (\<lambda>m. denoServeCallback m \<noteq> None) (prepare (Program body))
      then \<exists>s. find (\<lambda>m. denoServeCallback m \<noteq> None) (preorder (prepare (Program body))) = Some s
             \<and> replacedFirst denoServeCallback (prepare (Program body)) s [root']
      else root' = prepare (Program body)"
  proof (cases "anyNode (\<lambda>m. serveCallback m \<noteq> None) (prepare (Program body))")
    case True
    with t f [of serveCallback "prepare (Program body)" "[root']"] show ?thesis by (simp only: if_True)
  next
    case False
    note nf = False
    show ?thesis
    proof (cases "anyNode (\<lambda>m. denoServeCallback m \<noteq> None) (prepare (Program body))")
      case True
      with t nf f [of denoServeCallback "prepare (Program body)" "[root']"] show ?thesis
        by (simp only: if_True if_False)
    next
      case False
      with t nf show ?thesis by (simp only: if_False)
    qed
  qed
  with out show ?thesis by blast
qed

theorem first_registration_call_honoured_witness:
  "transform (Program
      [FunctionDeclaration (Identifier ''main'') []
         (BlockStatement [ExpressionStatement (CallExpression (Identifier ''serve'') [Identifier ''h1''])]) False,
       ExpressionStatement (CallExpression (Identifier ''serve'') [Identifier ''h2''])])
    = Inr (Program
      [FunctionDeclaration (Identifier ''main'') []
         (BlockStatement [ExportDefaultDeclaration (Identifier ''h1'')]) False,
       ExpressionStatement (CallExpression (Identifier ''serve'') [Identifier ''h2''])])
   \<and> (\<exists>root'. Program
      [FunctionDeclaration (Identifier ''main'') []
         (BlockStatement [ExportDefaultDeclaration (Identifier ''h1'')]) False,
       ExpressionStatement (CallExpression (Identifier ''serve'') [Identifier ''h2''])] = finish root'
       \<and> replacedFirst serveCallback (prepare (Program
      [FunctionDeclaration (Identifier ''main'') []
         (BlockStatement [ExpressionStatement (CallExpression (Identifier ''serve'') [Identifier ''h1''])]) False,
       ExpressionStatement (CallExpression (Identifier ''serve'') [Identifier ''h2''])]))
         (ExpressionStatement (CallExpression (Identifier ''serve'') [Identifier ''h1''])) [root'])"
proof -
  let ?s1 = "ExpressionStatement (CallExpression (Identifier ''serve'') [Identifier ''h1''])"
  let ?s2 = "ExpressionStatement (CallExpression (Identifier ''serve'') [Identifier ''h2''])"
  let ?body = "[FunctionDeclaration (Identifier ''main'') [] (BlockStatement [?s1]) False, ?s2]"
  let ?out = "Program [FunctionDeclaration (Identifier ''main'') []
         (BlockStatement [ExportDefaultDeclaration (Identifier ''h1'')]) False, ?s2]"
  have t: "transform (Program ?body) = Inr ?out" by (simp add: ast_eval)
  have p: "prepare (Program ?body) = Program ?body" by (simp add: ast_eval)
  have a: "anyNode (\<lambda>m. serveCallback m \<noteq> None) (prepare (Program ?body))"
    by (simp add: p anyNode.simps)
  have f: "find (\<lambda>m. serveCallback m \<noteq> None) (preorder (prepare (Program ?body))) = Some ?s1"
    by (simp add: p preorder.simps)
  from first_registration_call_honoured [OF t] a f
  have "\<exists>root'. ?out = finish root' \<and> replacedFirst serveCallback (prepare (Program ?body)) ?s1 [root']"
    by auto
  with t show ?thesis by simp
qed

section \<open>Environment-variable example file (generateEnvExample)\<close>

text \<open>
  A JavaScript \<open>Set<string>\<close> is modelled as the list of its elements in insertion order
  (without repetition); \<open>has\<close> is membership and \<open>delete\<close> removes the element.  The
  function mutates the set it is given, so the model returns the final set together with
  the generated text.
\<close>

definition supabaseVars :: "string list" where
  "supabaseVars = [''SUPABASE_URL'', ''SUPABASE_ANON_KEY'', ''SUPABASE_SERVICE_ROLE_KEY'',
     ''SUPABASE_JWT_SECRET'', ''DATABASE_URL'']"

definition openaiVars :: "string list" where
  "openaiVars = [''OPENAI_API_KEY'', ''OPENAI_ORG_ID'']"

definition stripeVars :: "string list" where
  "stripeVars = [''STRIPE_SECRET_KEY'', ''STRIPE_WEBHOOK_SECRET'', ''STRIPE_PUBLISHABLE_KEY'']"

definition emailVars :: "string list" where
  "emailVars = [''RESEND_API_KEY'', ''SENDGRID_API_KEY'', ''SMTP_HOST'', ''SMTP_PORT'',
     ''SMTP_USER'', ''SMTP_PASS'']"

text \<open>One round of \<open>for (const v of group) if (envVars.has(v)) { lines.push(`${v}=`); envVars.delete(v) }\<close>.\<close>

definition groupStep :: "string \<Rightarrow> string list \<times> string list \<Rightarrow> string list \<times> string list" where
  "groupStep v st = (case st of (ls, env) \<Rightarrow>
     if v \<in> set env then (ls @ [v @ ''=''], removeAll v env) else (ls, env))"

text \<open>\<open>if (hasGroup) { lines.push(title); for ...; lines.push('') }\<close>.\<close>

definition emitGroup :: "bool \<Rightarrow> string \<Rightarrow> string list \<Rightarrow> string list \<times> string list
    \<Rightarrow> string list \<times> string list" where
  "emitGroup hasGroup title grp st =
     (if hasGroup
      then (let r = fold groupStep grp (fst st @ [title], snd st) in (fst r @ [''''], snd r))
      else st)"

definition someHas :: "string list \<Rightarrow> string list \<Rightarrow> bool" where
  "someHas grp env = list_ex (\<lambda>v. v \<in> set env) grp"

fun joinLines :: "string list \<Rightarrow> string" where
  "joinLines [] = ''''"
| "joinLines [l] = l"
| "joinLines (l # ls) = l @ [CHR 0x0A] @ joinLines ls"

definition generateEnvExample :: "string list \<Rightarrow> string \<times> string list" where
  "generateEnvExample envVars =
    (let ls0 = [''# Server Configuration'', ''PORT=3001'', ''BASE_URL=http://localhost:3001'',
                ''BASE_PATH=/functions/v1'', '''', ''# Environment'', ''NODE_ENV=development'', ''''];
         hasSupabase = someHas supabaseVars envVars;
         hasOpenai = someHas openaiVars envVars;
         hasStripe = someHas stripeVars envVars;
         hasEmail = someHas emailVars envVars;
         st1 = emitGroup hasSupabase ''# Supabase'' supabaseVars (ls0, envVars);
         st2 = emitGroup hasOpenai ''# OpenAI'' openaiVars st1;
         st3 = emitGroup hasStripe ''# Stripe'' stripeVars st2;
         st4 = emitGroup hasEmail ''# Email'' emailVars st3;
         ls5 = (if length (snd st4) > 0
                then fst st4 @ [''# Application''] @ map (\<lambda>v. v @ ''='') (sort (snd st4)) @ ['''']
                else fst st4)
     in (joinLines ls5, snd st4))"

definition groupedVars :: "string list" where
  "groupedVars = supabaseVars @ openaiVars @ stripeVars @ emailVars"

section \<open>Facts about generateEnvExample\<close>

lemma groupStep_fold_env:
  "snd (fold groupStep grp (ls, env)) = filter (\<lambda>v. v \<notin> set grp) env"
proof (induction grp arbitrary: ls env)
  case Nil
  show ?case by simp
next
  case (Cons g grp)
  have rm: "removeAll g env = filter (\<lambda>v. v \<noteq> g) env"
    by (induction env) auto
  show ?case
  proof (cases "g \<in> set env")
    case True
    then show ?thesis
      using Cons.IH [of "ls @ [g @ ''='']" "removeAll g env"]
      by (simp add: groupStep_def rm conj_commute)
  next
    case False
    then have same: "filter (\<lambda>v. v \<noteq> g) env = env"
      by (induction env) auto
    have "filter (\<lambda>v. v \<noteq> g \<and> v \<notin> set grp) env
          = filter (\<lambda>v. v \<notin> set grp) (filter (\<lambda>v. v \<noteq> g) env)"
      by (simp add: conj_commute)
    with False same show ?thesis
      using Cons.IH [of ls env] by (simp add: groupStep_def)
  qed
qed

lemma emitGroup_env:
  "snd (emitGroup (someHas grp (snd st)) title grp st) = filter (\<lambda>v. v \<notin> set grp) (snd st)"
proof (cases "someHas grp (snd st)")
  case True
  then show ?thesis
    using groupStep_fold_env [of grp "fst st @ [title]" "snd st"]
    by (simp add: emitGroup_def Let_def)
next
  case False
  then have "\<forall>v \<in> set (snd st). v \<notin> set grp"
    by (auto simp: someHas_def list_ex_iff)
  then have "filter (\<lambda>v. v \<notin> set grp) (snd st) = snd st"
    by (simp add: filter_id_conv)
  with False show ?thesis by (simp add: emitGroup_def)
qed

lemma someHas_filter_disjoint:
  "\<forall>v \<in> set grp. P v \<Longrightarrow> someHas grp (filter P env) = someHas grp env"
  by (auto simp: someHas_def list_ex_iff)

lemma groups_disjoint:
  "\<forall>v \<in> set openaiVars. v \<notin> set supabaseVars"
  "\<forall>v \<in> set stripeVars. v \<notin> set supabaseVars \<and> v \<notin> set openaiVars"
  "\<forall>v \<in> set emailVars. v \<notin> set supabaseVars \<and> v \<notin> set openaiVars \<and> v \<notin> set stripeVars"
  by (simp_all add: supabaseVars_def openaiVars_def stripeVars_def emailVars_def)

lemma generateEnvExample_env:
  "snd (generateEnvExample env) = filter (\<lambda>v. v \<notin> set groupedVars) env"
proof -
  define e1 where "e1 = filter (\<lambda>v. v \<notin> set supabaseVars) env"
  define e2 where "e2 = filter (\<lambda>v. v \<notin> set openaiVars) e1"
  define e3 where "e3 = filter (\<lambda>v. v \<notin> set stripeVars) e2"
  define e4 where "e4 = filter (\<lambda>v. v \<notin> set emailVars) e3"
  define ls0 where "ls0 = [''# Server Configuration'', ''PORT=3001'', ''BASE_URL=http://localhost:3001'',
                ''BASE_PATH=/functions/v1'', '''', ''# Environment'', ''NODE_ENV=development'', '''']"
  define st1 where "st1 = emitGroup (someHas supabaseVars env) ''# Supabase'' supabaseVars (ls0, env)"
  define st2 where "st2 = emitGroup (someHas openaiVars env) ''# OpenAI'' openaiVars st1"
  define st3 where "st3 = emitGroup (someHas stripeVars env) ''# Stripe'' stripeVars st2"
  define st4 where "st4 = emitGroup (someHas emailVars env) ''# Email'' emailVars st3"
  have s1: "snd st1 = e1"
    using emitGroup_env [of supabaseVars "(ls0, env)"] by (simp add: st1_def e1_def)
  have h2: "someHas openaiVars env = someHas openaiVars (snd st1)"
    by (simp add: s1 e1_def someHas_filter_disjoint groups_disjoint)
  have s2: "snd st2 = e2"
    using emitGroup_env [of openaiVars st1] by (simp add: st2_def h2 s1 e2_def)
  have h3: "someHas stripeVars env = someHas stripeVars (snd st2)"
    by (simp add: s2 e2_def e1_def someHas_filter_disjoint groups_disjoint)
  have s3: "snd st3 = e3"
    using emitGroup_env [of stripeVars st2] by (simp add: st3_def h3 s2 e3_def)
  have h4: "someHas emailVars env = someHas emailVars (snd st3)"
    by (simp add: s3 e3_def e2_def e1_def someHas_filter_disjoint groups_disjoint)
  have s4: "snd st4 = e4"
    using emitGroup_env [of emailVars st3] by (simp add: st4_def h4 s3 e4_def)
  have "snd (generateEnvExample env) = snd st4"
    by (simp add: generateEnvExample_def Let_def st4_def st3_def st2_def st1_def ls0_def)
  also have "\<dots> = filter (\<lambda>v. v \<notin> set groupedVars) env"
    by (simp add: s4 e4_def e3_def e2_def e1_def groupedVars_def conj_ac)
  finally show ?thesis .
qed

text \<open>
  Claim C10.  generateEnvExample mutates the set passed to it: every name of the Supabase,
  OpenAI, Stripe and Email groups that the set holds is deleted from it, so that after the
  call the caller's set holds exactly its ungrouped names, in their old order; whenever the
  set held a grouped name it is therefore not what it was before the call.
\<close>

theorem generateEnvExample_deletes_grouped:
  "snd (generateEnvExample env) = filter (\<lambda>v. v \<notin> set groupedVars) env
   \<and> ((\<exists>v \<in> set env. v \<in> set groupedVars) \<longrightarrow> snd (generateEnvExample env) \<noteq> env)"
proof -
  have a: "snd (generateEnvExample env) = filter (\<lambda>v. v \<notin> set groupedVars) env"
    by (rule generateEnvExample_env)
  have "snd (generateEnvExample env) \<noteq> env" if "\<exists>v \<in> set env. v \<in> set groupedVars"
  proof
    assume "snd (generateEnvExample env) = env"
    with a have "filter (\<lambda>v. v \<notin> set groupedVars) env = env" by simp
    then have "\<forall>v \<in> set env. v \<notin> set groupedVars" by (simp add: filter_id_conv)
    with that show False by blast
  qed
  with a show ?thesis by blast
qed

theorem generateEnvExample_deletes_grouped_witness:
  "snd (generateEnvExample [''MY_TOKEN'', ''STRIPE_SECRET_KEY'', ''SUPABASE_URL'']) = [''MY_TOKEN'']
   \<and> (\<exists>v \<in> set [''MY_TOKEN'', ''STRIPE_SECRET_KEY'', ''SUPABASE_URL'']. v \<in> set groupedVars)
   \<and> snd (generateEnvExample [''MY_TOKEN'', ''STRIPE_SECRET_KEY'', ''SUPABASE_URL''])
       \<noteq> [''MY_TOKEN'', ''STRIPE_SECRET_KEY'', ''SUPABASE_URL'']"
  using generateEnvExample_deletes_grouped [of "[''MY_TOKEN'', ''STRIPE_SECRET_KEY'', ''SUPABASE_URL'']"]
  by (simp add: groupedVars_def supabaseVars_def openaiVars_def stripeVars_def emailVars_def)

end
